theory Spec2Isabelle
  imports Complex_Main "HOL-Library.AList" "HOL-Library.Sublist"
begin

section \<open>Configuration\<close>

text \<open>
  The sketch exists in two variants that share the tracker and differ in the detector and
  in their constants. The constants are collected in one record; \<open>pixel_config\<close> holds the
  values of the pixel-grid variant, \<open>cell_config\<close> those of the cell-grid variant.
  JavaScript numbers are modelled as exact reals (no rounding, no NaN): a comparison whose
  two sides differ by less than the rounding of double arithmetic can come out differently in
  the sketch.
\<close>

record config =
  motionThreshold :: real
  minBlobSize :: nat
  maxBlobs :: nat
  gridSize :: nat
  positionSmoothFactor :: real
  velocitySmoothFactor :: real
  maxTrailLength :: nat
  trailDecay :: real
  maxMatchDistance :: real

definition pixel_config :: config where
  "pixel_config = \<lparr> motionThreshold = 30, minBlobSize = 200, maxBlobs = 10, gridSize = 1,
     positionSmoothFactor = 8 / 10, velocitySmoothFactor = 7 / 10,
     maxTrailLength = 30, trailDecay = 8, maxMatchDistance = 50 \<rparr>"

definition cell_config :: config where
  "cell_config = \<lparr> motionThreshold = 20, minBlobSize = 1, maxBlobs = 100, gridSize = 10,
     positionSmoothFactor = 8 / 10, velocitySmoothFactor = 5 / 10,
     maxTrailLength = 50, trailDecay = 8, maxMatchDistance = 100 \<rparr>"

section \<open>Trails\<close>

text \<open>
  A blob as the tracker reads it: \<open>centerX\<close>, \<open>centerY\<close> and \<open>avgDiff\<close>. The two detectors
  extend this record with their own fields.
\<close>

record blob =
  centerX :: real
  centerY :: real
  avgDiff :: real

record pos =
  pos_x :: real
  pos_y :: real
  pos_speed :: real
  pos_diff :: real
  age :: real

text \<open>The objects \<open>{x, y}\<close> of \<open>velocity\<close> and \<open>smoothedPosition\<close> are pairs.\<close>

record trail =
  positions :: "pos list"
  velocity :: "real \<times> real"
  smoothedPosition :: "real \<times> real"
  speed :: real
  active :: bool

text \<open>
  A trail id is the string \<open>"blob_" + Date.now() + "_" + Math.floor(Math.random() * 1000)\<close>;
  it is represented by its two numbers. Such a string is never empty, so the test
  \<open>if (bestMatch)\<close> is a test for \<open>null\<close>. \<open>motionTrails\<close> is an object with string keys that
  are not array indices: iteration follows insertion order and an assignment to an existing
  key keeps its place, which is what \<open>AList.update\<close> does on an association list.
\<close>

type_synonym trail_id = "nat \<times> nat"

type_synonym trails = "(trail_id \<times> trail) list"

datatype error = TypeError | RangeError

text \<open>The body of \<open>updateTrail\<close>, on the trail object it has looked up.\<close>

definition trailUpdate :: "config \<Rightarrow> 'a blob_scheme \<Rightarrow> trail \<Rightarrow> trail" where
  "trailUpdate cfg b t =
     (let (vx, vy) = (if length (positions t) > 0
                      then (centerX b - pos_x (last (positions t)),
                            centerY b - pos_y (last (positions t)))
                      else (0, 0));
          vel = (fst (velocity t) * velocitySmoothFactor cfg + vx * (1 - velocitySmoothFactor cfg),
                 snd (velocity t) * velocitySmoothFactor cfg + vy * (1 - velocitySmoothFactor cfg));
          spd = sqrt (fst vel * fst vel + snd vel * snd vel);
          sp = (fst (smoothedPosition t) * positionSmoothFactor cfg
                  + centerX b * (1 - positionSmoothFactor cfg),
                snd (smoothedPosition t) * positionSmoothFactor cfg
                  + centerY b * (1 - positionSmoothFactor cfg));
          ps = positions t @ [\<lparr> pos_x = fst sp, pos_y = snd sp, pos_speed = spd,
                                pos_diff = avgDiff b, age = 255 \<rparr>]
      in \<lparr> positions = (if length ps > maxTrailLength cfg then tl ps else ps),
           velocity = vel, smoothedPosition = sp, speed = spd, active = True \<rparr>)"

text \<open>
  \<open>updateTrail(id, blob)\<close>: \<open>motionTrails[id]\<close> is \<open>undefined\<close> for an absent key and the first
  assignment to it throws.
\<close>

definition updateTrail :: "config \<Rightarrow> trail_id \<Rightarrow> 'a blob_scheme \<Rightarrow> trails \<Rightarrow> error + trails" where
  "updateTrail cfg tid b ts =
     (case map_of ts tid of
        None \<Rightarrow> Inl TypeError
      | Some t \<Rightarrow> Inr (AList.update tid (trailUpdate cfg b t) ts))"

text \<open>
  The inner loop of \<open>trackBlobs\<close> over the trails, with \<open>bestMatch\<close> and \<open>bestDistance\<close> as
  accumulators. \<open>trail.positions[trail.positions.length - 1]\<close> is \<open>undefined\<close> on an empty
  sequence and reading \<open>lastPos.x\<close> then throws.
\<close>

fun findBest :: "'a blob_scheme \<Rightarrow> trail_id set \<Rightarrow> trails \<Rightarrow> trail_id option \<Rightarrow> real
    \<Rightarrow> error + trail_id option" where
  "findBest b matched [] bestMatch bestDistance = Inr bestMatch"
| "findBest b matched ((tid, t) # rest) bestMatch bestDistance =
     (if tid \<in> matched then findBest b matched rest bestMatch bestDistance
      else if positions t = [] then Inl TypeError
      else let lastPos = last (positions t);
               dx = centerX b - pos_x lastPos;
               dy = centerY b - pos_y lastPos;
               distance = sqrt (dx * dx + dy * dy)
           in if distance < bestDistance
              then findBest b matched rest (Some tid) distance
              else findBest b matched rest bestMatch bestDistance)"

definition newTrail :: "'a blob_scheme \<Rightarrow> trail" where
  "newTrail b = \<lparr> positions = [], velocity = (0, 0),
     smoothedPosition = (centerX b, centerY b), speed = 0, active = True \<rparr>"

text \<open>
  The body of \<open>blobs.forEach\<close>. Each blob comes with the id that \<open>Date.now()\<close> and
  \<open>Math.random()\<close> would give it, used only when no trail matches. The state is the trail
  object and the set \<open>matchedTrailIds\<close>.
\<close>

definition matchBlob :: "config \<Rightarrow> 'a blob_scheme \<times> trail_id \<Rightarrow> trails \<times> trail_id set
    \<Rightarrow> error + trails \<times> trail_id set" where
  "matchBlob cfg bn st =
     (case bn of (b, newId) \<Rightarrow> case st of (ts, matched) \<Rightarrow>
       (case findBest b matched ts None (maxMatchDistance cfg) of
          Inl e \<Rightarrow> Inl e
        | Inr (Some bestMatch) \<Rightarrow>
            (case updateTrail cfg bestMatch b ts of
               Inl e \<Rightarrow> Inl e
             | Inr ts' \<Rightarrow> Inr (ts', insert bestMatch matched))
        | Inr None \<Rightarrow>
            (case updateTrail cfg newId b (AList.update newId (newTrail b) ts) of
               Inl e \<Rightarrow> Inl e
             | Inr ts' \<Rightarrow> Inr (ts', matched))))"

fun matchBlobs :: "config \<Rightarrow> ('a blob_scheme \<times> trail_id) list \<Rightarrow> trails \<times> trail_id set
    \<Rightarrow> error + trails \<times> trail_id set" where
  "matchBlobs cfg [] st = Inr st"
| "matchBlobs cfg (bn # bns) st =
     (case matchBlob cfg bn st of Inl e \<Rightarrow> Inl e | Inr st' \<Rightarrow> matchBlobs cfg bns st')"

definition markInactive :: "trails \<Rightarrow> trails" where
  "markInactive ts = map (\<lambda>(tid, t). (tid, t\<lparr>active := False\<rparr>)) ts"

definition ageTrail :: "config \<Rightarrow> trail \<Rightarrow> trail" where
  "ageTrail cfg t =
     t\<lparr>positions := filter (\<lambda>p. age p > 0)
                       (map (\<lambda>p. p\<lparr>age := age p - trailDecay cfg\<rparr>) (positions t))\<rparr>"

text \<open>The last loop of \<open>trackBlobs\<close>; a trail left without positions is deleted.\<close>

fun ageTrails :: "config \<Rightarrow> trails \<Rightarrow> trails" where
  "ageTrails cfg [] = []"
| "ageTrails cfg ((tid, t) # rest) =
     (if positions (ageTrail cfg t) = [] then ageTrails cfg rest
      else (tid, ageTrail cfg t) # ageTrails cfg rest)"

definition trackBlobs :: "config \<Rightarrow> ('a blob_scheme \<times> trail_id) list \<Rightarrow> trails \<Rightarrow> error + trails" where
  "trackBlobs cfg blobs ts =
     (case matchBlobs cfg blobs (markInactive ts, {}) of
        Inl e \<Rightarrow> Inl e
      | Inr (ts', matched) \<Rightarrow> Inr (ageTrails cfg ts'))"

text \<open>\<open>draw\<close> calls \<open>trackBlobs\<close> once per frame; a run is a list of the blob lists of its ticks.\<close>

fun runTicks :: "config \<Rightarrow> ('a blob_scheme \<times> trail_id) list list \<Rightarrow> trails \<Rightarrow> error + trails" where
  "runTicks cfg [] ts = Inr ts"
| "runTicks cfg (blobs # rest) ts =
     (case trackBlobs cfg blobs ts of Inl e \<Rightarrow> Inl e | Inr ts' \<Rightarrow> runTicks cfg rest ts')"

text \<open>The distance that the matching loop computes between a blob and a trail.\<close>

definition trailDistance :: "'a blob_scheme \<Rightarrow> trail \<Rightarrow> real" where
  "trailDistance b t =
     sqrt ((centerX b - pos_x (last (positions t))) * (centerX b - pos_x (last (positions t)))
         + (centerY b - pos_y (last (positions t))) * (centerY b - pos_y (last (positions t))))"

section \<open>Blob detection on the pixel grid\<close>

text \<open>
  \<open>findMotionBlobs\<close> of the first variant. It reads the globals \<open>motionPixels\<close>,
  \<open>video.width\<close> and \<open>video.height\<close>, which are parameters here. A blob carries the list of
  its pixels \<open>{x, y, diff}\<close> and the running sums.
\<close>

record pixel_blob = blob +
  pixels :: "(nat \<times> nat \<times> real) list"
  totalDiff :: real

text \<open>
  \<open>motionPixels[i]\<close>. Beyond the end of the array the read gives \<open>undefined\<close>, and
  \<open>undefined > 0\<close> is false, as \<open>0 > 0\<close> is; the value is only used in that test and, for
  indices that passed it, in the sums.
\<close>

definition mp :: "real list \<Rightarrow> nat \<Rightarrow> real" where
  "mp motionPixels i = (if i < length motionPixels then motionPixels ! i else 0)"

definition neighbors :: "(int \<times> int) list" where
  "neighbors = [(- 1, 0), (1, 0), (0, - 1), (0, 1)]"

text \<open>
  The body of the loop over the four neighbours. The array \<open>visited\<close> of booleans is the set
  of the indices that hold \<open>true\<close>; \<open>queue.push\<close> appends.
\<close>

definition visitNeighbor :: "nat \<Rightarrow> nat \<Rightarrow> real list \<Rightarrow> nat \<Rightarrow> nat \<Rightarrow> int \<times> int
    \<Rightarrow> nat list \<times> nat set \<Rightarrow> nat list \<times> nat set" where
  "visitNeighbor w h motionPixels x y n st =
     (case st of (queue, visited) \<Rightarrow>
        let nx = int x + fst n; ny = int y + snd n
        in if nx \<ge> 0 \<and> nx < int w \<and> ny \<ge> 0 \<and> ny < int h
           then let neighborIndex = nat ny * w + nat nx
                in if mp motionPixels neighborIndex > 0 \<and> neighborIndex \<notin> visited
                   then (queue @ [neighborIndex], insert neighborIndex visited)
                   else (queue, visited)
           else (queue, visited))"

text \<open>
  The number of motion pixels not yet visited: each \<open>push\<close> marks one of them, which bounds
  the number of iterations of the \<open>while\<close> loop.
\<close>

definition unvisited :: "real list \<Rightarrow> nat set \<Rightarrow> nat" where
  "unvisited motionPixels visited =
     card {i. i < length motionPixels \<and> mp motionPixels i > 0 \<and> i \<notin> visited}"

lemma unvisited_insert:
  assumes "mp motionPixels i > 0" and "i \<notin> visited"
  shows "Suc (unvisited motionPixels (insert i visited)) = unvisited motionPixels visited"
proof -
  define S where "S = {j. j < length motionPixels \<and> mp motionPixels j > 0 \<and> j \<notin> visited}"
  have fin: "finite S" unfolding S_def by simp
  have "i < length motionPixels"
  proof (rule ccontr)
    assume "\<not> i < length motionPixels"
    then have "mp motionPixels i = 0" by (simp add: mp_def)
    with assms(1) show False by simp
  qed
  with assms have mem: "i \<in> S" unfolding S_def by simp
  have "{j. j < length motionPixels \<and> mp motionPixels j > 0 \<and> j \<notin> insert i visited} = S - {i}"
    unfolding S_def by blast
  then have e1: "unvisited motionPixels (insert i visited) = card (S - {i})"
    unfolding unvisited_def by simp
  have e2: "unvisited motionPixels visited = card S"
    unfolding unvisited_def S_def by simp
  have "card S = Suc (card (S - {i}))" using fin mem by (rule card.remove)
  with e1 e2 show ?thesis by simp
qed

lemma visitNeighbor_cases:
  "visitNeighbor w h motionPixels x y n (queue, visited) = (queue, visited) \<or>
   (\<exists>i. mp motionPixels i > 0 \<and> i \<notin> visited \<and>
      visitNeighbor w h motionPixels x y n (queue, visited) = (queue @ [i], insert i visited))"
  unfolding visitNeighbor_def Let_def by simp

lemma visitNeighbor_measure:
  assumes "visitNeighbor w h motionPixels x y n (queue, visited) = (queue', visited')"
  shows "length queue' + 2 * unvisited motionPixels visited'
       \<le> length queue + 2 * unvisited motionPixels visited"
  using visitNeighbor_cases [of w h motionPixels x y n queue visited]
proof
  assume "visitNeighbor w h motionPixels x y n (queue, visited) = (queue, visited)"
  with assms show ?thesis by simp
next
  assume "\<exists>i. mp motionPixels i > 0 \<and> i \<notin> visited \<and>
      visitNeighbor w h motionPixels x y n (queue, visited) = (queue @ [i], insert i visited)"
  then obtain i where i: "mp motionPixels i > 0" "i \<notin> visited"
    "visitNeighbor w h motionPixels x y n (queue, visited) = (queue @ [i], insert i visited)"
    by blast
  from i(3) assms have "queue' = queue @ [i]" "visited' = insert i visited" by simp_all
  with unvisited_insert [OF i(1,2)] show ?thesis by simp
qed

lemma fold_visitNeighbor_measure:
  assumes "fold (visitNeighbor w h motionPixels x y) ns (queue, visited) = (queue', visited')"
  shows "length queue' + 2 * unvisited motionPixels visited'
       \<le> length queue + 2 * unvisited motionPixels visited"
  using assms
proof (induction ns arbitrary: queue visited)
  case Nil
  then show ?case by simp
next
  case (Cons n ns)
  obtain q1 v1 where s: "visitNeighbor w h motionPixels x y n (queue, visited) = (q1, v1)"
    by (cases "visitNeighbor w h motionPixels x y n (queue, visited)")
  with Cons.prems have "fold (visitNeighbor w h motionPixels x y) ns (q1, v1) = (queue', visited')"
    by simp
  from Cons.IH [OF this] visitNeighbor_measure [OF s] show ?case by linarith
qed

text \<open>
  The \<open>while (queue.length > 0)\<close> loop. \<open>queue.shift()\<close> takes the head. For
  \<open>video.width = 0\<close> JavaScript computes \<open>NaN\<close> for \<open>x\<close> and \<open>y\<close>; the bounds test then
  fails for every neighbour, as it does here, so sizes agree and only the coordinates of that
  degenerate case have no counterpart in the model.
\<close>

function floodFill :: "nat \<Rightarrow> nat \<Rightarrow> real list \<Rightarrow> nat list \<Rightarrow> nat set \<Rightarrow> pixel_blob
    \<Rightarrow> pixel_blob \<times> nat set" where
  "floodFill w h motionPixels [] visited blob = (blob, visited)"
| "floodFill w h motionPixels (pixelIndex # queue) visited blob =
     (let x = pixelIndex mod w;
          y = pixelIndex div w;
          blob' = blob\<lparr> centerX := centerX blob + real x,
                        centerY := centerY blob + real y,
                        pixels := pixels blob @ [(x, y, mp motionPixels pixelIndex)],
                        totalDiff := totalDiff blob + mp motionPixels pixelIndex \<rparr>;
          st = fold (visitNeighbor w h motionPixels x y) neighbors (queue, visited)
      in floodFill w h motionPixels (fst st) (snd st) blob')"
  by pat_completeness auto
termination
proof (relation "measure (\<lambda>(w, h, motionPixels, queue, visited, blob).
    length queue + 2 * unvisited motionPixels visited)")
  show "wf (measure (\<lambda>(w, h, motionPixels, queue, visited, blob).
    length queue + 2 * unvisited motionPixels visited))" by simp
next
  fix w h :: nat and motionPixels :: "real list" and pixelIndex :: nat and queue :: "nat list"
    and visited :: "nat set" and blob :: pixel_blob and x y :: nat and blob' :: pixel_blob
    and st :: "nat list \<times> nat set"
  assume "x = pixelIndex mod w" "y = pixelIndex div w"
    and st: "st = fold (visitNeighbor w h motionPixels x y) neighbors (queue, visited)"
  then have "fold (visitNeighbor w h motionPixels x y) neighbors (queue, visited) = (fst st, snd st)"
    by simp
  from fold_visitNeighbor_measure [OF this]
  show "((w, h, motionPixels, fst st, snd st, blob'),
         (w, h, motionPixels, pixelIndex # queue, visited, blob))
        \<in> measure (\<lambda>(w, h, motionPixels, queue, visited, blob).
            length queue + 2 * unvisited motionPixels visited)"
    by simp
qed

declare floodFill.simps [simp del]

text \<open>
  The scan \<open>for (let i = 0; i < motionPixels.length; i++)\<close>, with \<open>visited\<close> and \<open>blobs\<close>
  as accumulators; a blob that passes the size test is pushed with its sums divided by its
  pixel count.
\<close>

definition emptyBlob :: pixel_blob where
  "emptyBlob = \<lparr> centerX = 0, centerY = 0, avgDiff = 0, pixels = [], totalDiff = 0 \<rparr>"

fun scanPixels :: "config \<Rightarrow> nat \<Rightarrow> nat \<Rightarrow> real list \<Rightarrow> nat list \<Rightarrow> nat set \<Rightarrow> pixel_blob list
    \<Rightarrow> pixel_blob list" where
  "scanPixels cfg w h motionPixels [] visited blobs = blobs"
| "scanPixels cfg w h motionPixels (i # rest) visited blobs =
     (if mp motionPixels i > 0 \<and> i \<notin> visited
      then let st = floodFill w h motionPixels [i] (insert i visited) emptyBlob;
               blob = fst st
           in if length (pixels blob) > minBlobSize cfg
              then scanPixels cfg w h motionPixels rest (snd st)
                     (blobs @ [blob\<lparr> centerX := centerX blob / real (length (pixels blob)),
                                      centerY := centerY blob / real (length (pixels blob)),
                                      avgDiff := totalDiff blob / real (length (pixels blob)) \<rparr>])
              else scanPixels cfg w h motionPixels rest (snd st) blobs
      else scanPixels cfg w h motionPixels rest visited blobs)"

text \<open>
  \<open>blobs.sort((a, b) => b.size - a.size)\<close>: \<open>Array.prototype.sort\<close> is a stable sort, here
  by descending size; \<open>sort_key\<close> is a stable insertion sort, on the negated size.
  \<open>slice(0, maxBlobs)\<close> is \<open>take\<close>.
\<close>

definition sortBySize :: "('a \<Rightarrow> nat) \<Rightarrow> 'a list \<Rightarrow> 'a list" where
  "sortBySize sz blobs = sort_key (\<lambda>b. - int (sz b)) blobs"

text \<open>The blobs in the order in which the scan pushes them, then the function itself.\<close>

definition pixelBlobs :: "config \<Rightarrow> nat \<Rightarrow> nat \<Rightarrow> real list \<Rightarrow> pixel_blob list" where
  "pixelBlobs cfg w h motionPixels =
     scanPixels cfg w h motionPixels [0 ..< length motionPixels] {} []"

definition findMotionBlobs_pixel :: "config \<Rightarrow> nat \<Rightarrow> nat \<Rightarrow> real list \<Rightarrow> pixel_blob list" where
  "findMotionBlobs_pixel cfg w h motionPixels =
     take (maxBlobs cfg) (sortBySize (\<lambda>b. length (pixels b)) (pixelBlobs cfg w h motionPixels))"

section \<open>Frames and the difference signal\<close>

text \<open>
  A \<open>p5.Image\<close>: its \<open>pixels\<close> are a \<open>Uint8ClampedArray\<close> with four bytes (red, green, blue,
  alpha) per pixel. A read beyond the end gives \<open>undefined\<close> (\<open>None\<close>), arithmetic on it gives
  \<open>NaN\<close> (\<open>None\<close> again) and every comparison with \<open>NaN\<close> is false. A write beyond the end
  is ignored, as by \<open>list_update\<close>; a stored number is clamped to \<open>[0, 255]\<close> and rounded to the
  nearest integer, ties to even, \<open>NaN\<close> becoming 0. \<open>createImage\<close> gives an image of zeros.
\<close>

record image =
  img_width :: nat
  img_height :: nat
  img_pixels :: "int list"

definition byteAt :: "int list \<Rightarrow> nat \<Rightarrow> int option" where
  "byteAt ps i = (if i < length ps then Some (ps ! i) else None)"

definition toUint8Clamp :: "real option \<Rightarrow> int" where
  "toUint8Clamp v =
     (case v of
        None \<Rightarrow> 0
      | Some r \<Rightarrow>
          if r \<le> 0 then 0
          else if r \<ge> 255 then 255
          else let f = \<lfloor>r\<rfloor>
               in if of_int f + 1 / 2 < r then f + 1
                  else if r < of_int f + 1 / 2 then f
                  else if even f then f else f + 1)"

definition createImage :: "nat \<Rightarrow> nat \<Rightarrow> image" where
  "createImage w h = \<lparr> img_width = w, img_height = h, img_pixels = replicate (4 * w * h) 0 \<rparr>"

text \<open>
  The coordinates visited by \<open>for (y ...) for (x ...)\<close>, in that order.
\<close>

definition pixelCoords :: "nat \<Rightarrow> nat \<Rightarrow> (nat \<times> nat) list" where
  "pixelCoords w h = concat (map (\<lambda>y. map (\<lambda>x. (x, y)) [0 ..< w]) [0 ..< h])"

text \<open>
  The differencing loop of \<open>draw\<close> in the first variant. \<open>motionPixels\<close> is a plain array:
  an assignment beyond its end extends it, and the holes read as \<open>undefined\<close>, which every use
  treats like 0 (see \<open>mp\<close>). The loop that resets \<open>motionPixels\<close> comes first.
\<close>

definition jsSet :: "real list \<Rightarrow> nat \<Rightarrow> real \<Rightarrow> real list" where
  "jsSet xs i v =
     (if i < length xs then xs[i := v] else xs @ replicate (i - length xs) 0 @ [v])"

definition channelDiff :: "int option \<Rightarrow> int option \<Rightarrow> real option" where
  "channelDiff c p =
     (case (c, p) of (Some a, Some b) \<Rightarrow> Some \<bar>real_of_int a - real_of_int b\<bar> | _ \<Rightarrow> None)"

definition markMotionPixel :: "config \<Rightarrow> nat \<Rightarrow> image \<Rightarrow> image \<Rightarrow> nat \<times> nat \<Rightarrow> real list
    \<Rightarrow> real list" where
  "markMotionPixel cfg w currFrame prevFrame xy motionPixels =
     (case xy of (x, y) \<Rightarrow>
        let i = (y * w + x) * 4;
            diffR = channelDiff (byteAt (img_pixels currFrame) i) (byteAt (img_pixels prevFrame) i);
            diffG = channelDiff (byteAt (img_pixels currFrame) (i + 1))
                                (byteAt (img_pixels prevFrame) (i + 1));
            diffB = channelDiff (byteAt (img_pixels currFrame) (i + 2))
                                (byteAt (img_pixels prevFrame) (i + 2))
        in case (diffR, diffG, diffB) of
             (Some r, Some g, Some b) \<Rightarrow>
               let avgDiff = (r + g + b) / 3
               in if avgDiff > motionThreshold cfg
                  then jsSet motionPixels (y * w + x) avgDiff
                  else motionPixels
           | _ \<Rightarrow> motionPixels)"

definition motionSignal :: "config \<Rightarrow> nat \<Rightarrow> nat \<Rightarrow> image \<Rightarrow> image \<Rightarrow> real list \<Rightarrow> real list" where
  "motionSignal cfg w h currFrame prevFrame motionPixels =
     fold (markMotionPixel cfg w currFrame prevFrame) (pixelCoords w h)
       (map (\<lambda>v. 0) motionPixels)"

text \<open>
  \<open>createDifferenceImage\<close> and \<open>getBrightness\<close> of the second variant. The loop runs over
  \<open>i = 0, 4, 8, ...\<close> below \<open>currFrame.pixels.length\<close>; the chained assignment stores 255 at
  \<open>i + 2\<close>, \<open>i + 1\<close> and \<open>i\<close>.
\<close>

definition getBrightness :: "nat \<Rightarrow> image \<Rightarrow> real option" where
  "getBrightness index img =
     (case (byteAt (img_pixels img) index, byteAt (img_pixels img) (index + 1),
            byteAt (img_pixels img) (index + 2)) of
        (Some r, Some g, Some b) \<Rightarrow>
          Some (real_of_int r * (212 / 1000) + real_of_int g * (715 / 1000)
                + real_of_int b * (72 / 1000))
      | _ \<Rightarrow> None)"

definition brightnessDiff :: "real option \<Rightarrow> real option \<Rightarrow> real option" where
  "brightnessDiff b1 b2 = (case (b1, b2) of (Some u, Some v) \<Rightarrow> Some \<bar>u - v\<bar> | _ \<Rightarrow> None)"

definition diffPixel :: "image \<Rightarrow> image \<Rightarrow> nat \<Rightarrow> int list \<Rightarrow> int list" where
  "diffPixel currFrame prevFrame i ps =
     (let b1 = getBrightness i currFrame;
          b2 = getBrightness i prevFrame
      in ps[i + 2 := 255, i + 1 := 255, i := 255, i + 3 := toUint8Clamp (brightnessDiff b1 b2)])"

definition createDifferenceImage :: "image \<Rightarrow> image \<Rightarrow> image" where
  "createDifferenceImage currFrame prevFrame =
     (let diff = createImage (img_width currFrame) (img_height currFrame)
      in diff\<lparr> img_pixels :=
           fold (diffPixel currFrame prevFrame)
             (map (\<lambda>k. 4 * k) [0 ..< (length (img_pixels currFrame) + 3) div 4])
             (img_pixels diff) \<rparr>)"

section \<open>Blob detection on the cell grid\<close>

text \<open>
  \<open>findMotionBlobs\<close> of the second variant, on the global \<open>diffImage\<close>. The grid is an array
  of rows of cells \<open>{motion, avgDiff}\<close>; \<open>gridCells n g\<close> is \<open>Math.ceil(n / g)\<close> for \<open>g > 0\<close>.
  The coordinates of a pixel always fall inside the grid.
\<close>

record cell =
  motion :: bool
  cell_avgDiff :: real

type_synonym grid = "cell list list"

record cell_blob = blob +
  blob_size :: nat

definition gridCells :: "nat \<Rightarrow> nat \<Rightarrow> nat" where
  "gridCells n g = (n + g - 1) div g"

definition initGrid :: "nat \<Rightarrow> nat \<Rightarrow> grid" where
  "initGrid gridWidth gridHeight =
     replicate gridHeight (replicate gridWidth \<lparr> motion = False, cell_avgDiff = 0 \<rparr>)"

definition markCell :: "config \<Rightarrow> image \<Rightarrow> nat \<times> nat \<Rightarrow> grid \<Rightarrow> grid" where
  "markCell cfg diffImage xy grid =
     (case xy of (x, y) \<Rightarrow>
        let i = (y * img_width diffImage + x) * 4;
            gridX = x div gridSize cfg;
            gridY = y div gridSize cfg
        in case byteAt (img_pixels diffImage) (i + 3) of
             Some a \<Rightarrow>
               if real_of_int a > motionThreshold cfg
               then grid[gridY := (grid ! gridY)[gridX :=
                      \<lparr> motion = True,
                        cell_avgDiff = cell_avgDiff (grid ! gridY ! gridX) + real_of_int a \<rparr>]]
               else grid
           | None \<Rightarrow> grid)"

definition normalizeGrid :: "config \<Rightarrow> grid \<Rightarrow> grid" where
  "normalizeGrid cfg grid =
     map (map (\<lambda>c. if motion c
                    then c\<lparr>cell_avgDiff := cell_avgDiff c / real (gridSize cfg * gridSize cfg)\<rparr>
                    else c)) grid"

definition motionGrid :: "config \<Rightarrow> image \<Rightarrow> grid" where
  "motionGrid cfg diffImage =
     normalizeGrid cfg
       (fold (markCell cfg diffImage) (pixelCoords (img_width diffImage) (img_height diffImage))
          (initGrid (gridCells (img_width diffImage) (gridSize cfg))
                    (gridCells (img_height diffImage) (gridSize cfg))))"

text \<open>
  The locals \<open>cellsInBlob\<close>, \<open>totalDiff\<close>, \<open>centerX\<close> and \<open>centerY\<close> of the search for one
  component, and the body of its loop over the neighbours; \<open>visited\<close> is the set of the cells
  marked \<open>true\<close>.
\<close>

record cell_acc =
  cellsInBlob :: "(nat \<times> nat) list"
  acc_totalDiff :: real
  acc_centerX :: real
  acc_centerY :: real

definition visitCell :: "nat \<Rightarrow> nat \<Rightarrow> grid \<Rightarrow> nat \<times> nat \<Rightarrow> int \<times> int
    \<Rightarrow> (nat \<times> nat) list \<times> (nat \<times> nat) set \<Rightarrow> (nat \<times> nat) list \<times> (nat \<times> nat) set" where
  "visitCell gridWidth gridHeight grid c n st =
     (case st of (queue, visited) \<Rightarrow>
        let nx = int (fst c) + fst n; ny = int (snd c) + snd n
        in if nx \<ge> 0 \<and> nx < int gridWidth \<and> ny \<ge> 0 \<and> ny < int gridHeight
              \<and> motion (grid ! nat ny ! nat nx) \<and> (nat nx, nat ny) \<notin> visited
           then (queue @ [(nat nx, nat ny)], insert (nat nx, nat ny) visited)
           else (queue, visited))"

definition unvisitedCells :: "nat \<Rightarrow> nat \<Rightarrow> grid \<Rightarrow> (nat \<times> nat) set \<Rightarrow> nat" where
  "unvisitedCells gridWidth gridHeight grid visited =
     card {c. fst c < gridWidth \<and> snd c < gridHeight \<and> motion (grid ! snd c ! fst c) \<and> c \<notin> visited}"

lemma unvisitedCells_insert:
  assumes "fst c < gridWidth" and "snd c < gridHeight" and "motion (grid ! snd c ! fst c)"
    and "c \<notin> visited"
  shows "Suc (unvisitedCells gridWidth gridHeight grid (insert c visited))
       = unvisitedCells gridWidth gridHeight grid visited"
proof -
  define S where "S = {d. fst d < gridWidth \<and> snd d < gridHeight \<and>
     motion (grid ! snd d ! fst d) \<and> d \<notin> visited}"
  have "S \<subseteq> {..< gridWidth} \<times> {..< gridHeight}" unfolding S_def by auto
  then have fin: "finite S" by (rule finite_subset) simp
  from assms have mem: "c \<in> S" unfolding S_def by simp
  have "{d. fst d < gridWidth \<and> snd d < gridHeight \<and> motion (grid ! snd d ! fst d) \<and>
          d \<notin> insert c visited} = S - {c}"
    unfolding S_def by blast
  then have e1: "unvisitedCells gridWidth gridHeight grid (insert c visited) = card (S - {c})"
    unfolding unvisitedCells_def by simp
  have e2: "unvisitedCells gridWidth gridHeight grid visited = card S"
    unfolding unvisitedCells_def S_def by simp
  have "card S = Suc (card (S - {c}))" using fin mem by (rule card.remove)
  with e1 e2 show ?thesis by simp
qed

lemma visitCell_cases:
  "visitCell gridWidth gridHeight grid c n (queue, visited) = (queue, visited) \<or>
   (\<exists>d. fst d < gridWidth \<and> snd d < gridHeight \<and> motion (grid ! snd d ! fst d) \<and>
      d \<notin> visited \<and>
      visitCell gridWidth gridHeight grid c n (queue, visited) = (queue @ [d], insert d visited))"
proof (cases "visitCell gridWidth gridHeight grid c n (queue, visited) = (queue, visited)")
  case True
  then show ?thesis by simp
next
  case False
  let ?nx = "int (fst c) + fst n" and ?ny = "int (snd c) + snd n"
  from False have cond: "?nx \<ge> 0 \<and> ?nx < int gridWidth \<and> ?ny \<ge> 0 \<and> ?ny < int gridHeight
      \<and> motion (grid ! nat ?ny ! nat ?nx) \<and> (nat ?nx, nat ?ny) \<notin> visited"
    unfolding visitCell_def Let_def by (simp split: if_splits)
  then have "visitCell gridWidth gridHeight grid c n (queue, visited) =
      (queue @ [(nat ?nx, nat ?ny)], insert (nat ?nx, nat ?ny) visited)"
    unfolding visitCell_def Let_def by simp
  moreover from cond have "fst (nat ?nx, nat ?ny) < gridWidth" "snd (nat ?nx, nat ?ny) < gridHeight"
    by (simp_all add: nat_less_iff)
  moreover from cond have "motion (grid ! snd (nat ?nx, nat ?ny) ! fst (nat ?nx, nat ?ny))"
    "(nat ?nx, nat ?ny) \<notin> visited" by simp_all
  ultimately show ?thesis by blast
qed

lemma visitCell_measure:
  assumes "visitCell gridWidth gridHeight grid c n (queue, visited) = (queue', visited')"
  shows "length queue' + 2 * unvisitedCells gridWidth gridHeight grid visited'
       \<le> length queue + 2 * unvisitedCells gridWidth gridHeight grid visited"
  using visitCell_cases [of gridWidth gridHeight grid c n queue visited]
proof
  assume "visitCell gridWidth gridHeight grid c n (queue, visited) = (queue, visited)"
  with assms show ?thesis by simp
next
  assume "\<exists>d. fst d < gridWidth \<and> snd d < gridHeight \<and> motion (grid ! snd d ! fst d) \<and>
      d \<notin> visited \<and>
      visitCell gridWidth gridHeight grid c n (queue, visited) = (queue @ [d], insert d visited)"
  then obtain d where d: "fst d < gridWidth" "snd d < gridHeight" "motion (grid ! snd d ! fst d)"
    "d \<notin> visited"
    "visitCell gridWidth gridHeight grid c n (queue, visited) = (queue @ [d], insert d visited)"
    by blast
  from d(5) assms have "queue' = queue @ [d]" "visited' = insert d visited" by simp_all
  with unvisitedCells_insert [OF d(1-4)] show ?thesis by simp
qed

lemma fold_visitCell_measure:
  assumes "fold (visitCell gridWidth gridHeight grid c) ns (queue, visited) = (queue', visited')"
  shows "length queue' + 2 * unvisitedCells gridWidth gridHeight grid visited'
       \<le> length queue + 2 * unvisitedCells gridWidth gridHeight grid visited"
  using assms
proof (induction ns arbitrary: queue visited)
  case Nil
  then show ?case by simp
next
  case (Cons n ns)
  obtain q1 v1 where s: "visitCell gridWidth gridHeight grid c n (queue, visited) = (q1, v1)"
    by (cases "visitCell gridWidth gridHeight grid c n (queue, visited)")
  with Cons.prems have "fold (visitCell gridWidth gridHeight grid c) ns (q1, v1) = (queue', visited')"
    by simp
  from Cons.IH [OF this] visitCell_measure [OF s] show ?case by linarith
qed

function floodCells :: "nat \<Rightarrow> nat \<Rightarrow> grid \<Rightarrow> (nat \<times> nat) list \<Rightarrow> (nat \<times> nat) set \<Rightarrow> cell_acc
    \<Rightarrow> cell_acc \<times> (nat \<times> nat) set" where
  "floodCells gridWidth gridHeight grid [] visited acc = (acc, visited)"
| "floodCells gridWidth gridHeight grid (c # queue) visited acc =
     (let acc' = \<lparr> cellsInBlob = cellsInBlob acc @ [c],
                   acc_totalDiff = acc_totalDiff acc + cell_avgDiff (grid ! snd c ! fst c),
                   acc_centerX = acc_centerX acc + real (fst c),
                   acc_centerY = acc_centerY acc + real (snd c) \<rparr>;
          st = fold (visitCell gridWidth gridHeight grid c) neighbors (queue, visited)
      in floodCells gridWidth gridHeight grid (fst st) (snd st) acc')"
  by pat_completeness auto
termination
proof (relation "measure (\<lambda>(gridWidth, gridHeight, grid, queue, visited, acc).
    length queue + 2 * unvisitedCells gridWidth gridHeight grid visited)")
  show "wf (measure (\<lambda>(gridWidth, gridHeight, grid, queue, visited, acc).
    length queue + 2 * unvisitedCells gridWidth gridHeight grid visited))" by simp
next
  fix gridWidth gridHeight :: nat and grid :: grid and c :: "nat \<times> nat"
    and queue :: "(nat \<times> nat) list" and visited :: "(nat \<times> nat) set" and acc acc' :: cell_acc
    and st :: "(nat \<times> nat) list \<times> (nat \<times> nat) set"
  assume "st = fold (visitCell gridWidth gridHeight grid c) neighbors (queue, visited)"
  then have "fold (visitCell gridWidth gridHeight grid c) neighbors (queue, visited) = (fst st, snd st)"
    by simp
  from fold_visitCell_measure [OF this]
  show "((gridWidth, gridHeight, grid, fst st, snd st, acc'),
         (gridWidth, gridHeight, grid, c # queue, visited, acc))
        \<in> measure (\<lambda>(gridWidth, gridHeight, grid, queue, visited, acc).
            length queue + 2 * unvisitedCells gridWidth gridHeight grid visited)"
    by simp
qed

declare floodCells.simps [simp del]

text \<open>
  The scan \<open>for (y ...) for (x ...)\<close> over the grid; a component that passes the size test is
  pushed with its centroid mapped back to frame coordinates.
\<close>

definition emptyAcc :: cell_acc where
  "emptyAcc = \<lparr> cellsInBlob = [], acc_totalDiff = 0, acc_centerX = 0, acc_centerY = 0 \<rparr>"

fun scanCells :: "config \<Rightarrow> nat \<Rightarrow> nat \<Rightarrow> grid \<Rightarrow> (nat \<times> nat) list \<Rightarrow> (nat \<times> nat) set
    \<Rightarrow> cell_blob list \<Rightarrow> cell_blob list" where
  "scanCells cfg gridWidth gridHeight grid [] visited blobs = blobs"
| "scanCells cfg gridWidth gridHeight grid (c # rest) visited blobs =
     (if motion (grid ! snd c ! fst c) \<and> c \<notin> visited
      then let st = floodCells gridWidth gridHeight grid [c] (insert c visited) emptyAcc;
               acc = fst st;
               n = length (cellsInBlob acc)
           in if n \<ge> minBlobSize cfg
              then scanCells cfg gridWidth gridHeight grid rest (snd st)
                     (blobs @ [\<lparr> centerX = acc_centerX acc / real n * real (gridSize cfg)
                                    + real (gridSize cfg) / 2,
                                  centerY = acc_centerY acc / real n * real (gridSize cfg)
                                    + real (gridSize cfg) / 2,
                                  avgDiff = acc_totalDiff acc / real n,
                                  blob_size = n \<rparr>])
              else scanCells cfg gridWidth gridHeight grid rest (snd st) blobs
      else scanCells cfg gridWidth gridHeight grid rest visited blobs)"

text \<open>
  The blobs in the order in which the scan pushes them, then the function itself. With
  \<open>GRID_SIZE = 0\<close> the grid dimensions are \<open>Infinity\<close> or \<open>NaN\<close> and \<open>Array(gridHeight)\<close>
  throws a \<open>RangeError\<close> before anything else happens.
\<close>

definition cellBlobs :: "config \<Rightarrow> image \<Rightarrow> cell_blob list" where
  "cellBlobs cfg diffImage =
     (let gridWidth = gridCells (img_width diffImage) (gridSize cfg);
          gridHeight = gridCells (img_height diffImage) (gridSize cfg)
      in scanCells cfg gridWidth gridHeight (motionGrid cfg diffImage)
           (pixelCoords gridWidth gridHeight) {} [])"

definition findMotionBlobs_cell :: "config \<Rightarrow> image \<Rightarrow> error + cell_blob list" where
  "findMotionBlobs_cell cfg diffImage =
     (if gridSize cfg = 0 then Inl RangeError
      else Inr (take (maxBlobs cfg) (sortBySize blob_size (cellBlobs cfg diffImage))))"

section \<open>Auxiliary notions for the statements\<close>

text \<open>
  The values that the accumulation loop adds to the cell \<open>(gx, gy)\<close>: for each pixel in scan
  order, its difference value if the pixel lies in the cell and the value exceeds the
  threshold.
\<close>

definition cellValue :: "config \<Rightarrow> image \<Rightarrow> nat \<Rightarrow> nat \<Rightarrow> nat \<times> nat \<Rightarrow> real list" where
  "cellValue cfg diffImage gx gy xy =
     (case xy of (x, y) \<Rightarrow>
        if x div gridSize cfg = gx \<and> y div gridSize cfg = gy
        then (case byteAt (img_pixels diffImage) ((y * img_width diffImage + x) * 4 + 3) of
                Some a \<Rightarrow> if real_of_int a > motionThreshold cfg then [real_of_int a] else []
              | None \<Rightarrow> [])
        else [])"

definition contributing :: "config \<Rightarrow> image \<Rightarrow> nat \<Rightarrow> nat \<Rightarrow> real list" where
  "contributing cfg diffImage gx gy =
     concat (map (cellValue cfg diffImage gx gy)
               (pixelCoords (img_width diffImage) (img_height diffImage)))"

text \<open>A grid with \<open>gh\<close> rows of \<open>gw\<close> cells, and a pixel array whose alpha bytes are all zero.\<close>

definition wfGrid :: "nat \<Rightarrow> nat \<Rightarrow> grid \<Rightarrow> bool" where
  "wfGrid gw gh g \<longleftrightarrow> length g = gh \<and> (\<forall>y < gh. length (g ! y) = gw)"


definition alphaZero :: "int list \<Rightarrow> bool" where
  "alphaZero ps \<longleftrightarrow> (\<forall>k. 4 * k + 3 < length ps \<longrightarrow> ps ! (4 * k + 3) = 0)"

section \<open>Sample values\<close>

text \<open>
  Sample values for the concrete instances below: blobs, trails and tick inputs for the
  tracker, a configuration with a large decay, a one-pixel difference image, a 3 by 2 signal
  and a 640 by 480 signal whose only motion is the first 200 pixels of the top row.
\<close>

definition blobA :: blob where
  "blobA = \<lparr> centerX = 100, centerY = 100, avgDiff = 40 \<rparr>"

definition blobB :: blob where
  "blobB = \<lparr> centerX = 110, centerY = 100, avgDiff = 40 \<rparr>"

definition trailA :: trail where
  "trailA = \<lparr> positions = [\<lparr> pos_x = 100, pos_y = 100, pos_speed = 0, pos_diff = 40, age = 247 \<rparr>],
     velocity = (0, 0), smoothedPosition = (100, 100), speed = 0, active = True \<rparr>"

definition trailsA :: trails where
  "trailsA = [((0, 0), trailA)]"

definition trailsA_aged :: trails where
  "trailsA_aged = [((0, 0), trailA\<lparr>positions := [\<lparr> pos_x = 100, pos_y = 100, pos_speed = 0,
     pos_diff = 40, age = 239 \<rparr>], active := False\<rparr>)]"

definition noBlobs :: "(blob \<times> trail_id) list" where
  "noBlobs = []"

definition trailZero :: trail where
  "trailZero = \<lparr> positions = [], velocity = (0, 0), smoothedPosition = (0, 0), speed = 0,
     active = True \<rparr>"

definition fastDecay :: config where
  "fastDecay = cell_config\<lparr>trailDecay := 128\<rparr>"

definition twoEmptyTicks :: "(blob \<times> trail_id) list list" where
  "twoEmptyTicks = [[], []]"

definition blobsA :: "(blob \<times> trail_id) list" where
  "blobsA = [(blobA, (5, 7))]"

definition blobsAB :: "(blob \<times> trail_id) list" where
  "blobsAB = [(blobA, (5, 7)), (blobB, (5, 8))]"

definition afterBlobA :: trails where
  "afterBlobA = [((5, 7),
     \<lparr> positions = [\<lparr> pos_x = 100, pos_y = 100, pos_speed = 0, pos_diff = 40, age = 255 \<rparr>],
       velocity = (0, 0), smoothedPosition = (100, 100), speed = 0, active = True \<rparr>)]"

definition afterBlobB :: trails where
  "afterBlobB = [((5, 7),
     \<lparr> positions = [\<lparr> pos_x = 100, pos_y = 100, pos_speed = 0, pos_diff = 40, age = 255 \<rparr>,
                     \<lparr> pos_x = 102, pos_y = 100, pos_speed = 5, pos_diff = 40, age = 255 \<rparr>],
       velocity = (5, 0), smoothedPosition = (102, 100), speed = 5, active = True \<rparr>)]"

definition onePixel :: image where
  "onePixel = \<lparr> img_width = 1, img_height = 1, img_pixels = [255, 255, 255, 100] \<rparr>"

definition smallSignal :: "real list" where
  "smallSignal = [31, 31, 0, 0, 0, 40]"

definition rowSignal :: "real list" where
  "rowSignal = replicate 200 31 @ replicate 307000 0"

lemmas tracker_defs = trackBlobs_def matchBlob_def updateTrail_def trailUpdate_def
  markInactive_def ageTrail_def newTrail_def cell_config_def pixel_config_def Let_def
  blobA_def blobB_def trailA_def trailZero_def trailsA_def trailsA_aged_def noBlobs_def
  fastDecay_def twoEmptyTicks_def blobsA_def blobsAB_def

section \<open>Properties of the tracker\<close>

lemma trailUpdate_smoothed:
  "smoothedPosition (trailUpdate cfg b t) =
     (fst (smoothedPosition t) * positionSmoothFactor cfg + centerX b * (1 - positionSmoothFactor cfg),
      snd (smoothedPosition t) * positionSmoothFactor cfg + centerY b * (1 - positionSmoothFactor cfg))"
  by (simp add: trailUpdate_def Let_def split: prod.splits)

lemma fold_trailUpdate_smoothed:
  assumes "\<forall>b \<in> set bs. centerX b = Dx \<and> centerY b = Dy"
  shows "smoothedPosition (fold (trailUpdate cfg) bs t) =
     (Dx + (fst (smoothedPosition t) - Dx) * positionSmoothFactor cfg ^ length bs,
      Dy + (snd (smoothedPosition t) - Dy) * positionSmoothFactor cfg ^ length bs)"
  using assms
proof (induction bs arbitrary: t)
  case Nil
  show ?case by simp
next
  case (Cons b bs)
  let ?f = "positionSmoothFactor cfg"
  let ?u = "trailUpdate cfg b t"
  from Cons.prems have b: "centerX b = Dx" "centerY b = Dy" by simp_all
  have x: "fst (smoothedPosition ?u) - Dx = (fst (smoothedPosition t) - Dx) * ?f"
    by (simp add: trailUpdate_smoothed b right_diff_distrib left_diff_distrib)
  have y: "snd (smoothedPosition ?u) - Dy = (snd (smoothedPosition t) - Dy) * ?f"
    by (simp add: trailUpdate_smoothed b right_diff_distrib left_diff_distrib)
  from Cons.prems have "\<forall>b \<in> set bs. centerX b = Dx \<and> centerY b = Dy" by simp
  from Cons.IH [OF this, of ?u] show ?case
    unfolding x y by (simp add: mult.assoc)
qed

lemma trailUpdate_positions:
  "positions (trailUpdate cfg b t) =
    (let ps = positions t @ [\<lparr> pos_x = fst (smoothedPosition (trailUpdate cfg b t)),
                               pos_y = snd (smoothedPosition (trailUpdate cfg b t)),
                               pos_speed = speed (trailUpdate cfg b t),
                               pos_diff = avgDiff b, age = 255 \<rparr>]
     in if length ps > maxTrailLength cfg then tl ps else ps)"
  by (simp add: trailUpdate_def Let_def split: prod.splits)

lemma trailUpdate_length:
  "length (positions t) \<le> maxTrailLength cfg \<Longrightarrow>
   length (positions (trailUpdate cfg b t)) \<le> maxTrailLength cfg"
  by (simp add: trailUpdate_positions Let_def)

lemma ageTrail_length:
  "length (positions t) \<le> n \<Longrightarrow> length (positions (ageTrail cfg t)) \<le> n"
  by (simp add: ageTrail_def) (meson le_trans length_filter_le length_map)

lemma findBest_total:
  "\<forall>(tid, t) \<in> set ts. tid \<notin> matched \<longrightarrow> positions t \<noteq> [] \<Longrightarrow>
   \<exists>r. findBest b matched ts best bd = Inr r"
  by (induction ts arbitrary: best bd) (auto simp: Let_def)

lemma findBest_spec:
  "findBest b matched ts best bd = Inr r \<Longrightarrow>
   (r = best \<and> (\<forall>(tid, t) \<in> set ts. tid \<notin> matched \<longrightarrow> \<not> trailDistance b t < bd)) \<or>
   (\<exists>tid t. r = Some tid \<and> (tid, t) \<in> set ts \<and> tid \<notin> matched \<and> trailDistance b t < bd \<and>
      (\<forall>(tid', t') \<in> set ts. tid' \<notin> matched \<longrightarrow> trailDistance b t \<le> trailDistance b t'))"
proof (induction ts arbitrary: best bd)
  case Nil
  then show ?case by simp
next
  case (Cons p ts)
  obtain tid t where p: "p = (tid, t)" by (cases p)
  show ?case
  proof (cases "tid \<in> matched")
    case True
    with Cons.prems p have "findBest b matched ts best bd = Inr r" by simp
    from Cons.IH [OF this] True p show ?thesis by auto
  next
    case False
    with Cons.prems p have ne: "positions t \<noteq> []" by (auto split: if_splits)
    show ?thesis
    proof (cases "trailDistance b t < bd")
      case True
      with Cons.prems p False ne
      have "findBest b matched ts (Some tid) (trailDistance b t) = Inr r"
        by (simp add: Let_def trailDistance_def)
      from Cons.IH [OF this] show ?thesis
      proof
        assume a: "r = Some tid \<and> (\<forall>(tid, t') \<in> set ts. tid \<notin> matched \<longrightarrow> \<not> trailDistance b t' < trailDistance b t)"
        have "\<exists>tid' t'. r = Some tid' \<and> (tid', t') \<in> set (p # ts) \<and> tid' \<notin> matched \<and> trailDistance b t' < bd \<and>
          (\<forall>(tid'', t'') \<in> set (p # ts). tid'' \<notin> matched \<longrightarrow> trailDistance b t' \<le> trailDistance b t'')"
          apply (rule exI [of _ tid], rule exI [of _ t])
          using a p False True by (auto simp: not_less)
        then show ?thesis ..
      next
        assume "\<exists>tid' t'. r = Some tid' \<and> (tid', t') \<in> set ts \<and> tid' \<notin> matched \<and>
            trailDistance b t' < trailDistance b t \<and>
            (\<forall>(tid'', t'') \<in> set ts. tid'' \<notin> matched \<longrightarrow> trailDistance b t' \<le> trailDistance b t'')"
        then obtain tid' t' where b: "r = Some tid'" "(tid', t') \<in> set ts" "tid' \<notin> matched"
            "trailDistance b t' < trailDistance b t"
            "\<forall>(tid'', t'') \<in> set ts. tid'' \<notin> matched \<longrightarrow> trailDistance b t' \<le> trailDistance b t''"
          by blast
        have "\<exists>tid' t'. r = Some tid' \<and> (tid', t') \<in> set (p # ts) \<and> tid' \<notin> matched \<and> trailDistance b t' < bd \<and>
          (\<forall>(tid'', t'') \<in> set (p # ts). tid'' \<notin> matched \<longrightarrow> trailDistance b t' \<le> trailDistance b t'')"
          apply (rule exI [of _ tid'], rule exI [of _ t'])
          using b p True by auto
        then show ?thesis ..
      qed
    next
      case nlt: False
      with Cons.prems p False ne
      have "findBest b matched ts best bd = Inr r"
        by (simp add: Let_def trailDistance_def)
      from Cons.IH [OF this] show ?thesis
      proof
        assume "r = best \<and> (\<forall>(tid, t) \<in> set ts. tid \<notin> matched \<longrightarrow> \<not> trailDistance b t < bd)"
        with p nlt show ?thesis by auto
      next
        assume "\<exists>tid' t'. r = Some tid' \<and> (tid', t') \<in> set ts \<and> tid' \<notin> matched \<and>
            trailDistance b t' < bd \<and>
            (\<forall>(tid'', t'') \<in> set ts. tid'' \<notin> matched \<longrightarrow> trailDistance b t' \<le> trailDistance b t'')"
        then obtain tid' t' where b: "r = Some tid'" "(tid', t') \<in> set ts" "tid' \<notin> matched"
            "trailDistance b t' < bd"
            "\<forall>(tid'', t'') \<in> set ts. tid'' \<notin> matched \<longrightarrow> trailDistance b t' \<le> trailDistance b t''"
          by blast
        have "\<exists>tid' t'. r = Some tid' \<and> (tid', t') \<in> set (p # ts) \<and> tid' \<notin> matched \<and> trailDistance b t' < bd \<and>
          (\<forall>(tid'', t'') \<in> set (p # ts). tid'' \<notin> matched \<longrightarrow> trailDistance b t' \<le> trailDistance b t'')"
          apply (rule exI [of _ tid'], rule exI [of _ t'])
          using b p nlt by auto
        then show ?thesis ..
      qed
    qed
  qed
qed

lemma updateTrail_fresh:
  "updateTrail cfg n b (AList.update n t ts) = Inr (AList.update n (trailUpdate cfg b t) ts)"
  by (simp add: updateTrail_def update_conv')

lemma matchBlob_cases:
  assumes "matchBlob cfg (b, newId) (ts, matched) = Inr (ts', matched')"
    and "distinct (map fst ts)"
  shows "(\<exists>tid t. findBest b matched ts None (maxMatchDistance cfg) = Inr (Some tid) \<and>
            (tid, t) \<in> set ts \<and> tid \<notin> matched \<and>
            ts' = AList.update tid (trailUpdate cfg b t) ts \<and> matched' = insert tid matched) \<or>
         (findBest b matched ts None (maxMatchDistance cfg) = Inr None \<and>
            ts' = AList.update newId (trailUpdate cfg b (newTrail b)) ts \<and> matched' = matched)"
proof (cases "findBest b matched ts None (maxMatchDistance cfg)")
  case (Inl e)
  with assms(1) show ?thesis by (simp add: matchBlob_def)
next
  case (Inr r)
  show ?thesis
  proof (cases r)
    case None
    with Inr assms(1) show ?thesis
      by (simp add: matchBlob_def updateTrail_fresh)
  next
    case (Some tid)
    from findBest_spec [OF Inr] Some obtain t where t: "(tid, t) \<in> set ts" "tid \<notin> matched"
      by auto
    with assms(2) have "map_of ts tid = Some t" by simp
    with Inr Some assms(1) t show ?thesis
      by (auto simp: matchBlob_def updateTrail_def)
  qed
qed

lemma matchBlob_total:
  assumes "\<forall>(tid, t) \<in> set ts. positions t \<noteq> []"
  shows "\<exists>st'. matchBlob cfg (b, newId) (ts, matched) = Inr st'"
proof -
  from assms have "\<forall>(tid, t) \<in> set ts. tid \<notin> matched \<longrightarrow> positions t \<noteq> []" by auto
  from findBest_total [OF this] obtain r
    where r: "findBest b matched ts None (maxMatchDistance cfg) = Inr r" by blast
  show ?thesis
  proof (cases r)
    case None
    with r show ?thesis by (simp add: matchBlob_def updateTrail_fresh)
  next
    case (Some tid)
    from findBest_spec [OF r] Some obtain t where "(tid, t) \<in> set ts" by auto
    then have "tid \<in> fst ` set ts" by force
    then have "map_of ts tid \<noteq> None" by (simp add: map_of_eq_None_iff)
    then obtain t' where "map_of ts tid = Some t'" by blast
    with r Some show ?thesis by (simp add: matchBlob_def updateTrail_def)
  qed
qed

lemma set_update_cases:
  "(k, v) \<in> set (AList.update i w ts) \<Longrightarrow> (k = i \<and> v = w) \<or> (k, v) \<in> set ts"
  by (induction ts) (auto split: if_splits)

lemma matchBlob_preserves:
  assumes "matchBlob cfg (b, newId) (ts, matched) = Inr (ts', matched')"
    and "distinct (map fst ts)"
    and "\<forall>(tid, t) \<in> set ts. P t"
    and "\<And>t. P t \<Longrightarrow> P (trailUpdate cfg b t)"
    and "P (trailUpdate cfg b (newTrail b))"
  shows "\<forall>(tid, t) \<in> set ts'. P t"
proof -
  have upd: "\<And>i w. P w \<Longrightarrow> \<forall>(tid, t) \<in> set (AList.update i w ts). P t"
    using assms(3) set_update_cases by fastforce
  from matchBlob_cases [OF assms(1,2)] show ?thesis
  proof
    assume "\<exists>tid t. findBest b matched ts None (maxMatchDistance cfg) = Inr (Some tid) \<and>
            (tid, t) \<in> set ts \<and> tid \<notin> matched \<and>
            ts' = AList.update tid (trailUpdate cfg b t) ts \<and> matched' = insert tid matched"
    then obtain tid t where a: "(tid, t) \<in> set ts" "ts' = AList.update tid (trailUpdate cfg b t) ts"
      by blast
    from a(1) assms(3) have "P t" by blast
    then have "P (trailUpdate cfg b t)" by (rule assms(4))
    from upd [OF this] a(2) show ?thesis by simp
  next
    assume "findBest b matched ts None (maxMatchDistance cfg) = Inr None \<and>
            ts' = AList.update newId (trailUpdate cfg b (newTrail b)) ts \<and> matched' = matched"
    with upd [OF assms(5)] show ?thesis by simp
  qed
qed

lemma matchBlob_distinct:
  assumes "matchBlob cfg (b, newId) (ts, matched) = Inr (ts', matched')"
    and "distinct (map fst ts)"
  shows "distinct (map fst ts')"
  using matchBlob_cases [OF assms] assms(2) by (auto simp: distinct_update)

lemma matchBlobs_preserves:
  fixes bns :: "('a blob_scheme \<times> trail_id) list"
  assumes "matchBlobs cfg bns (ts, matched) = Inr (ts', matched')"
    and "distinct (map fst ts)"
    and "\<forall>(tid, t) \<in> set ts. P t"
    and "\<And>(b :: 'a blob_scheme) t. P t \<Longrightarrow> P (trailUpdate cfg b t)"
    and "\<And>(b :: 'a blob_scheme). P (trailUpdate cfg b (newTrail b))"
  shows "distinct (map fst ts') \<and> (\<forall>(tid, t) \<in> set ts'. P t)"
  using assms(1-3)
proof (induction bns arbitrary: ts matched)
  case Nil
  then show ?case by simp
next
  case (Cons bn bns)
  obtain b n where bn: "bn = (b, n)" by (cases bn)
  obtain ts1 m1 where
    s1: "matchBlob cfg (b, n) (ts, matched) = Inr (ts1, m1)"
    and s2: "matchBlobs cfg bns (ts1, m1) = Inr (ts', matched')"
  proof (cases "matchBlob cfg (b, n) (ts, matched)")
    case (Inl e)
    with Cons.prems(1) bn show ?thesis by simp
  next
    case (Inr st1)
    with Cons.prems(1) bn that show ?thesis by (cases st1) simp
  qed
  have d1: "distinct (map fst ts1)" using matchBlob_distinct [OF s1 Cons.prems(2)] .
  have p1: "\<forall>(tid, t) \<in> set ts1. P t"
    by (rule matchBlob_preserves [OF s1 Cons.prems(2) Cons.prems(3)]) (rule assms(4), assumption, rule assms(5))
  from Cons.IH [OF s2 d1 p1] show ?case .
qed

lemma trailUpdate_nonempty:
  assumes "0 < maxTrailLength cfg"
  shows "positions (trailUpdate cfg b t) \<noteq> []"
proof (cases "positions t")
  case Nil
  with assms show ?thesis by (simp add: trailUpdate_def Let_def split: prod.splits)
next
  case (Cons p ps)
  then show ?thesis by (simp add: trailUpdate_def Let_def split: prod.splits)
qed

lemma matchBlobs_total:
  assumes "\<forall>(tid, t) \<in> set ts. positions t \<noteq> []" and "distinct (map fst ts)"
    and "0 < maxTrailLength cfg"
  shows "\<exists>st'. matchBlobs cfg bns (ts, matched) = Inr st'"
  using assms(1,2)
proof (induction bns arbitrary: ts matched)
  case Nil
  then show ?case by simp
next
  case (Cons bn bns)
  obtain b n where bn: "bn = (b, n)" by (cases bn)
  from matchBlob_total [OF Cons.prems(1)] obtain ts1 m1 where
    s1: "matchBlob cfg (b, n) (ts, matched) = Inr (ts1, m1)" by (metis surj_pair)
  have ne: "\<And>b t. positions (trailUpdate cfg b t) \<noteq> []"
    using assms(3) by (rule trailUpdate_nonempty)
  have p1: "\<forall>(tid, t) \<in> set ts1. positions t \<noteq> []"
    by (rule matchBlob_preserves [OF s1 Cons.prems(2) Cons.prems(1)]) (rule ne, rule ne)
  have d1: "distinct (map fst ts1)" using matchBlob_distinct [OF s1 Cons.prems(2)] .
  from Cons.IH [OF p1 d1] s1 bn show ?case by simp
qed

lemma ageTrails_filter:
  "ageTrails cfg ts =
     filter (\<lambda>(tid, t). positions t \<noteq> []) (map (\<lambda>(tid, t). (tid, ageTrail cfg t)) ts)"
  by (induction ts) auto

lemma ageTrails_set:
  "(tid, t') \<in> set (ageTrails cfg ts) \<longleftrightarrow>
   (\<exists>t. (tid, t) \<in> set ts \<and> t' = ageTrail cfg t \<and> positions t' \<noteq> [])"
  unfolding ageTrails_filter by force

lemma ageTrails_keys: "fst ` set (ageTrails cfg ts) \<subseteq> fst ` set ts"
proof
  fix i assume "i \<in> fst ` set (ageTrails cfg ts)"
  then obtain t' where "(i, t') \<in> set (ageTrails cfg ts)" by force
  then obtain t where "(i, t) \<in> set ts" unfolding ageTrails_set by blast
  then show "i \<in> fst ` set ts" by force
qed

lemma ageTrails_distinct: "distinct (map fst ts) \<Longrightarrow> distinct (map fst (ageTrails cfg ts))"
proof (induction ts)
  case Nil
  show ?case by simp
next
  case (Cons p ts)
  obtain i u where p: "p = (i, u)" by (cases p)
  from Cons.prems p have "i \<notin> fst ` set ts" by simp
  with ageTrails_keys have "i \<notin> fst ` set (ageTrails cfg ts)" by blast
  with Cons p show ?case by simp
qed

lemma markInactive_keys: "map fst (markInactive ts) = map fst ts"
  by (induction ts) (auto simp: markInactive_def)

lemma markInactive_set:
  "(tid, t') \<in> set (markInactive ts) \<longleftrightarrow> (\<exists>t. (tid, t) \<in> set ts \<and> t' = t\<lparr>active := False\<rparr>)"
  by (auto simp: markInactive_def)

lemma trackBlobs_cases:
  assumes "trackBlobs cfg blobs ts = Inr ts'"
  shows "\<exists>ts1 m1. matchBlobs cfg blobs (markInactive ts, {}) = Inr (ts1, m1) \<and>
     ts' = ageTrails cfg ts1"
proof (cases "matchBlobs cfg blobs (markInactive ts, {})")
  case (Inl e)
  with assms show ?thesis by (simp add: trackBlobs_def)
next
  case (Inr st)
  with assms show ?thesis by (cases st) (simp add: trackBlobs_def)
qed

lemma trackBlobs_preserves:
  fixes blobs :: "('a blob_scheme \<times> trail_id) list"
  assumes "trackBlobs cfg blobs ts = Inr ts'"
    and "distinct (map fst ts)"
    and "\<forall>(tid, t) \<in> set ts. P t"
    and "\<And>(b :: 'a blob_scheme) t. P t \<Longrightarrow> P (trailUpdate cfg b t)"
    and "\<And>(b :: 'a blob_scheme). P (trailUpdate cfg b (newTrail b))"
    and "\<And>t. P t \<Longrightarrow> P (t\<lparr>active := False\<rparr>)"
    and "\<And>t. P t \<Longrightarrow> P (ageTrail cfg t)"
  shows "distinct (map fst ts') \<and> (\<forall>(tid, t) \<in> set ts'. P t \<and> positions t \<noteq> [])"
proof -
  from trackBlobs_cases [OF assms(1)] obtain ts1 m1 where
    m: "matchBlobs cfg blobs (markInactive ts, {}) = Inr (ts1, m1)" and a: "ts' = ageTrails cfg ts1"
    by blast
  have d0: "distinct (map fst (markInactive ts))" using assms(2) by (simp add: markInactive_keys)
  have p0: "\<forall>(tid, t) \<in> set (markInactive ts). P t"
  proof (clarify)
    fix i j t' assume "((i, j), t') \<in> set (markInactive ts)"
    then obtain t where "((i, j), t) \<in> set ts" and t': "t' = t\<lparr>active := False\<rparr>"
      by (auto simp: markInactive_set)
    with assms(3) have "P t" by blast
    then show "P t'" unfolding t' by (rule assms(6))
  qed
  have "distinct (map fst ts1) \<and> (\<forall>(tid, t) \<in> set ts1. P t)"
    by (rule matchBlobs_preserves [OF m d0 p0]) (rule assms(4), assumption, rule assms(5))
  then have d1: "distinct (map fst ts1)" and p1: "\<forall>(tid, t) \<in> set ts1. P t" by simp_all
  have "\<forall>(tid, t) \<in> set ts'. P t \<and> positions t \<noteq> []"
  proof (clarify)
    fix i j t' assume "((i, j), t') \<in> set ts'"
    with a obtain t where t: "((i, j), t) \<in> set ts1" "t' = ageTrail cfg t" "positions t' \<noteq> []"
      by (auto simp: ageTrails_set)
    from t(1) p1 have "P t" by blast
    then have "P t'" unfolding t(2) by (rule assms(7))
    with t(3) show "P t' \<and> positions t' \<noteq> []" by simp
  qed
  with d1 a show ?thesis by (simp add: ageTrails_distinct)
qed

lemma newTrail_length:
  "length (positions (trailUpdate cfg b (newTrail b))) \<le> maxTrailLength cfg"
  by (rule trailUpdate_length) (simp add: newTrail_def)

lemma trailUpdate_fifo:
  "\<exists>p. age p = 255 \<and> positions (trailUpdate cfg b t) =
     (if maxTrailLength cfg < Suc (length (positions t))
      then tl (positions t @ [p]) else positions t @ [p])"
  by (rule exI [of _ "\<lparr> pos_x = fst (smoothedPosition (trailUpdate cfg b t)),
        pos_y = snd (smoothedPosition (trailUpdate cfg b t)),
        pos_speed = speed (trailUpdate cfg b t), pos_diff = avgDiff b, age = 255 \<rparr>"])
     (simp add: trailUpdate_positions Let_def)


lemma trailUpdate_active: "active (trailUpdate cfg b t)"
  by (simp add: trailUpdate_def Let_def split: prod.splits)

lemma matchBlob_inactive:
  assumes "matchBlob cfg (b, newId) (ts, matched) = Inr (ts', matched')"
    and "distinct (map fst ts)"
    and "map_of ts' tid = Some t'" and "\<not> active t'"
  shows "map_of ts tid = Some t'"
proof -
  have upd: "\<And>i u. ts' = AList.update i (trailUpdate cfg b u) ts \<Longrightarrow> map_of ts tid = Some t'"
  proof -
    fix i u assume e: "ts' = AList.update i (trailUpdate cfg b u) ts"
    show "map_of ts tid = Some t'"
    proof (cases "tid = i")
      case True
      with e assms(3) have "t' = trailUpdate cfg b u" by (simp add: update_conv')
      with assms(4) trailUpdate_active show ?thesis by blast
    next
      case False
      with e assms(3) show ?thesis by (simp add: update_conv')
    qed
  qed
  from matchBlob_cases [OF assms(1,2)] upd show ?thesis by blast
qed

lemma matchBlobs_inactive:
  assumes "matchBlobs cfg bns (ts, matched) = Inr (ts', matched')"
    and "distinct (map fst ts)"
    and "map_of ts' tid = Some t'" and "\<not> active t'"
  shows "map_of ts tid = Some t'"
  using assms(1,2)
proof (induction bns arbitrary: ts matched)
  case Nil
  with assms(3) show ?case by simp
next
  case (Cons bn bns)
  obtain b n where bn: "bn = (b, n)" by (cases bn)
  obtain ts1 m1 where
    s1: "matchBlob cfg (b, n) (ts, matched) = Inr (ts1, m1)"
    and s2: "matchBlobs cfg bns (ts1, m1) = Inr (ts', matched')"
  proof (cases "matchBlob cfg (b, n) (ts, matched)")
    case (Inl e)
    with Cons.prems(1) bn show ?thesis by simp
  next
    case (Inr st1)
    with Cons.prems(1) bn that show ?thesis by (cases st1) simp
  qed
  have d1: "distinct (map fst ts1)" using matchBlob_distinct [OF s1 Cons.prems(2)] .
  from Cons.IH [OF s2 d1] have "map_of ts1 tid = Some t'" .
  from matchBlob_inactive [OF s1 Cons.prems(2) this assms(4)] show ?case .
qed

lemma map_of_markInactive:
  "map_of (markInactive ts) tid = map_option (\<lambda>t. t\<lparr>active := False\<rparr>) (map_of ts tid)"
  by (induction ts) (auto simp: markInactive_def)

lemma map_of_ageTrails:
  assumes "distinct (map fst ts)" and "map_of (ageTrails cfg ts) tid = Some t'"
  shows "\<exists>t. map_of ts tid = Some t \<and> t' = ageTrail cfg t \<and> positions t' \<noteq> []"
proof -
  from assms(2) have "(tid, t') \<in> set (ageTrails cfg ts)" by (rule map_of_SomeD)
  then obtain t where t: "(tid, t) \<in> set ts" "t' = ageTrail cfg t" "positions t' \<noteq> []"
    unfolding ageTrails_set by blast
  from t(1) assms(1) have "map_of ts tid = Some t" by simp
  with t show ?thesis by blast
qed

lemma ageTrail_active: "active (ageTrail cfg t) = active t"
  by (simp add: ageTrail_def)

lemma trackBlobs_distinct:
  assumes "trackBlobs cfg blobs ts = Inr ts'" and "distinct (map fst ts)"
  shows "distinct (map fst ts')"
  using trackBlobs_preserves [OF assms, of "\<lambda>t. True"] by simp

lemma trackBlobs_inactive:
  assumes "trackBlobs cfg blobs ts = Inr ts'"
    and "distinct (map fst ts)"
    and "map_of ts' tid = Some t'" and "\<not> active t'"
  shows "\<exists>t. map_of ts tid = Some t \<and> positions t' = positions (ageTrail cfg t) \<and>
            positions t' \<noteq> []"
proof -
  from trackBlobs_cases [OF assms(1)] obtain ts1 m1 where
    m: "matchBlobs cfg blobs (markInactive ts, {}) = Inr (ts1, m1)" and a: "ts' = ageTrails cfg ts1"
    by blast
  have d0: "distinct (map fst (markInactive ts))" using assms(2) by (simp add: markInactive_keys)
  have "distinct (map fst ts1) \<and> (\<forall>(tid, t) \<in> set ts1. True)"
    by (rule matchBlobs_preserves [OF m d0]) simp_all
  then have d1: "distinct (map fst ts1)" by simp
  from map_of_ageTrails [OF d1] assms(3) a obtain t1 where
    t1: "map_of ts1 tid = Some t1" "t' = ageTrail cfg t1" "positions t' \<noteq> []" by blast
  with assms(4) have "\<not> active t1" by (simp add: ageTrail_active)
  from matchBlobs_inactive [OF m d0 t1(1) this]
  have "map_of (markInactive ts) tid = Some t1" .
  then obtain t where t: "map_of ts tid = Some t" "t1 = t\<lparr>active := False\<rparr>"
    by (auto simp: map_of_markInactive)
  have "positions (ageTrail cfg t1) = positions (ageTrail cfg t)"
    unfolding t(2) by (simp add: ageTrail_def)
  with t t1 show ?thesis by simp
qed

lemma ageTrail_ages:
  assumes "\<forall>p \<in> set (positions t). age p \<le> A"
  shows "\<forall>p \<in> set (positions (ageTrail cfg t)). 0 < age p \<and> age p \<le> A - trailDecay cfg"
  using assms by (auto simp: ageTrail_def)

lemma unmatched_ages:
  fixes ticks :: "('a blob_scheme \<times> trail_id) list list"
  assumes "distinct (map fst ts)"
    and "\<forall>t. map_of ts tid = Some t \<longrightarrow> (\<forall>p \<in> set (positions t). age p \<le> A)"
    and "\<forall>k < length ticks. \<exists>s. runTicks cfg (take (Suc k) ticks) ts = Inr s \<and>
           (\<forall>t. map_of s tid = Some t \<longrightarrow> \<not> active t)"
  shows "\<exists>s. runTicks cfg ticks ts = Inr s \<and>
           (\<forall>t. map_of s tid = Some t \<longrightarrow>
              (\<forall>p \<in> set (positions t). age p \<le> A - real (length ticks) * trailDecay cfg) \<and>
              (ticks \<noteq> [] \<longrightarrow> positions t \<noteq> [] \<and> (\<forall>p \<in> set (positions t). 0 < age p)))"
  using assms
proof (induction ticks arbitrary: ts A)
  case Nil
  then show ?case by simp
next
  case (Cons blobs rest)
  from Cons.prems(3) have "\<exists>s. runTicks cfg (take (Suc 0) (blobs # rest)) ts = Inr s \<and>
           (\<forall>t. map_of s tid = Some t \<longrightarrow> \<not> active t)" by blast
  then obtain s1 where s1: "trackBlobs cfg blobs ts = Inr s1"
    and i1: "\<forall>t. map_of s1 tid = Some t \<longrightarrow> \<not> active t"
    by (auto split: sum.splits)
  have d1: "distinct (map fst s1)" using trackBlobs_distinct [OF s1 Cons.prems(1)] .
  have a1: "\<forall>t. map_of s1 tid = Some t \<longrightarrow>
      positions t \<noteq> [] \<and> (\<forall>p \<in> set (positions t). 0 < age p \<and> age p \<le> A - trailDecay cfg)"
  proof (intro allI impI)
    fix t' assume t': "map_of s1 tid = Some t'"
    with i1 have "\<not> active t'" by blast
    from trackBlobs_inactive [OF s1 Cons.prems(1) t' this] obtain t where
      t: "map_of ts tid = Some t" "positions t' = positions (ageTrail cfg t)" "positions t' \<noteq> []"
      by blast
    from t(1) Cons.prems(2) have "\<forall>p \<in> set (positions t). age p \<le> A" by blast
    from ageTrail_ages [OF this, of cfg] t(2,3)
    show "positions t' \<noteq> [] \<and> (\<forall>p \<in> set (positions t'). 0 < age p \<and> age p \<le> A - trailDecay cfg)"
      by simp
  qed
  then have a1': "\<forall>t. map_of s1 tid = Some t \<longrightarrow>
      (\<forall>p \<in> set (positions t). age p \<le> A - trailDecay cfg)" by blast
  have r1: "\<forall>k < length rest. \<exists>s. runTicks cfg (take (Suc k) rest) s1 = Inr s \<and>
           (\<forall>t. map_of s tid = Some t \<longrightarrow> \<not> active t)"
  proof (intro allI impI)
    fix k assume "k < length rest"
    then have "Suc k < length (blobs # rest)" by simp
    with Cons.prems(3) have "\<exists>s. runTicks cfg (take (Suc (Suc k)) (blobs # rest)) ts = Inr s \<and>
           (\<forall>t. map_of s tid = Some t \<longrightarrow> \<not> active t)" by blast
    with s1 show "\<exists>s. runTicks cfg (take (Suc k) rest) s1 = Inr s \<and>
           (\<forall>t. map_of s tid = Some t \<longrightarrow> \<not> active t)" by simp
  qed
  from Cons.IH [OF d1 a1' r1] obtain s where
    s: "runTicks cfg rest s1 = Inr s"
    and b: "\<forall>t. map_of s tid = Some t \<longrightarrow>
              (\<forall>p \<in> set (positions t). age p \<le> A - trailDecay cfg - real (length rest) * trailDecay cfg) \<and>
              (rest \<noteq> [] \<longrightarrow> positions t \<noteq> [] \<and> (\<forall>p \<in> set (positions t). 0 < age p))"
    by blast
  have e: "A - trailDecay cfg - real (length rest) * trailDecay cfg
        = A - real (length (blobs # rest)) * trailDecay cfg"
    by (simp add: algebra_simps)
  have "\<forall>t. map_of s tid = Some t \<longrightarrow>
              (\<forall>p \<in> set (positions t). age p \<le> A - real (length (blobs # rest)) * trailDecay cfg) \<and>
              (positions t \<noteq> [] \<and> (\<forall>p \<in> set (positions t). 0 < age p))"
  proof (cases "rest = []")
    case True
    with s have "s = s1" by simp
    with a1 show ?thesis using True by simp
  next
    case False
    with b e show ?thesis by simp
  qed
  with s s1 show ?case by simp
qed


lemma newTrail_updated:
  "smoothedPosition (trailUpdate cfg b (newTrail b)) = (centerX b, centerY b) \<and>
   velocity (trailUpdate cfg b (newTrail b)) = (0, 0) \<and>
   speed (trailUpdate cfg b (newTrail b)) = 0"
  by (simp add: trailUpdate_def newTrail_def Let_def algebra_simps)


text \<open>
  C8: with smoothing factor \<open>f\<close> in \<open>[0, 1]\<close>, a trail whose smoothed position starts at
  \<open>0\<close> and that is updated \<open>k\<close> times with blobs of the same centroid \<open>D\<close> has smoothed
  position \<open>D * (1 - f ^ k)\<close>, in each coordinate, over exact arithmetic.
\<close>

theorem smoothed_step_response:
  assumes "0 \<le> positionSmoothFactor cfg" and "positionSmoothFactor cfg \<le> 1"
    and "smoothedPosition t = (0, 0)"
    and "\<forall>b \<in> set bs. centerX b = Dx \<and> centerY b = Dy"
  shows "smoothedPosition (fold (trailUpdate cfg) bs t) =
     (Dx * (1 - positionSmoothFactor cfg ^ length bs),
      Dy * (1 - positionSmoothFactor cfg ^ length bs))"
  using fold_trailUpdate_smoothed [OF assms(4), of cfg t] assms(3)
  by (simp add: right_diff_distrib)


theorem smoothed_step_response_witness:
  "0 \<le> positionSmoothFactor cell_config \<and> positionSmoothFactor cell_config \<le> 1 \<and>
   smoothedPosition trailZero = (0, 0) \<and>
   centerX blobB = 110 \<and> centerY blobB = 100 \<and>
   smoothedPosition (fold (trailUpdate cell_config) [blobB, blobB, blobB] trailZero) =
     (110 * (1 - (8 / 10) ^ 3), 100 * (1 - (8 / 10) ^ 3))"
proof -
  have h1: "0 \<le> positionSmoothFactor cell_config" by (simp add: cell_config_def)
  have h2: "positionSmoothFactor cell_config \<le> 1" by (simp add: cell_config_def)
  have h3: "smoothedPosition trailZero = (0, 0)" by (simp add: trailZero_def)
  have h4: "\<forall>b \<in> set [blobB, blobB, blobB]. centerX b = 110 \<and> centerY b = 100"
    by (simp add: blobB_def)
  have "positionSmoothFactor cell_config = 8 / 10" by (simp add: cell_config_def)
  with smoothed_step_response [OF h1 h2 h3 h4] h1 h2 h3 h4 show ?thesis
    by (simp add: power3_eq_cube)
qed

text \<open>
  C9: a trail's position sequence never exceeds \<open>maxTrailLength\<close>. If every trail is within
  the bound before a tick, every trail is within it after the tick and none is left with an
  empty sequence; a single update or aging keeps the bound, and an update that would exceed
  it drops the oldest record.
\<close>

theorem trail_length_bounded:
  fixes blobs :: "('a blob_scheme \<times> trail_id) list" and b :: "'a blob_scheme"
  assumes "distinct (map fst ts)"
    and "\<forall>(tid, t) \<in> set ts. length (positions t) \<le> maxTrailLength cfg"
    and "trackBlobs cfg blobs ts = Inr ts'"
  shows "(\<forall>(tid, t) \<in> set ts'. length (positions t) \<le> maxTrailLength cfg \<and> positions t \<noteq> []) \<and>
         (\<forall>(tid, t) \<in> set ts.
            length (positions (trailUpdate cfg b t)) \<le> maxTrailLength cfg \<and>
            length (positions (ageTrail cfg t)) \<le> maxTrailLength cfg \<and>
            (\<exists>p. age p = 255 \<and> positions (trailUpdate cfg b t) =
               (if maxTrailLength cfg < Suc (length (positions t))
                then tl (positions t @ [p]) else positions t @ [p])))"
proof
  have "distinct (map fst ts') \<and>
      (\<forall>(tid, t) \<in> set ts'. length (positions t) \<le> maxTrailLength cfg \<and> positions t \<noteq> [])"
    by (rule trackBlobs_preserves [OF assms(3,1,2)])
       (simp_all add: trailUpdate_length newTrail_length ageTrail_length)
  then show "\<forall>(tid, t) \<in> set ts'. length (positions t) \<le> maxTrailLength cfg \<and> positions t \<noteq> []"
    by simp
next
  show "\<forall>(tid, t) \<in> set ts.
            length (positions (trailUpdate cfg b t)) \<le> maxTrailLength cfg \<and>
            length (positions (ageTrail cfg t)) \<le> maxTrailLength cfg \<and>
            (\<exists>p. age p = 255 \<and> positions (trailUpdate cfg b t) =
               (if maxTrailLength cfg < Suc (length (positions t))
                then tl (positions t @ [p]) else positions t @ [p]))"
  proof (clarify)
    fix i j t assume "((i, j), t) \<in> set ts"
    with assms(2) have l: "length (positions t) \<le> maxTrailLength cfg" by blast
    from trailUpdate_length [OF l] ageTrail_length [OF l] trailUpdate_fifo [of cfg b t]
    show "length (positions (trailUpdate cfg b t)) \<le> maxTrailLength cfg \<and>
            length (positions (ageTrail cfg t)) \<le> maxTrailLength cfg \<and>
            (\<exists>p. age p = 255 \<and> positions (trailUpdate cfg b t) =
               (if maxTrailLength cfg < Suc (length (positions t))
                then tl (positions t @ [p]) else positions t @ [p]))"
      by blast
  qed
qed

theorem trail_length_bounded_witness:
  "distinct (map fst trailsA) \<and>
   list_all (\<lambda>(tid, t). length (positions t) \<le> maxTrailLength cell_config) trailsA \<and>
   trackBlobs cell_config noBlobs trailsA = Inr trailsA_aged \<and>
   list_all (\<lambda>(tid, t). length (positions t) \<le> maxTrailLength cell_config \<and> positions t \<noteq> [])
     trailsA_aged"
proof -
  have h1: "distinct (map fst trailsA)" by (simp add: trailsA_def)
  have h2: "\<forall>(tid, t) \<in> set trailsA. length (positions t) \<le> maxTrailLength cell_config"
    by (simp add: trailsA_def trailA_def cell_config_def)
  have h3: "trackBlobs cell_config noBlobs trailsA = Inr trailsA_aged"
    by (simp add: tracker_defs)
  note c = trail_length_bounded [OF h1 h2 h3, of blobA, THEN conjunct1]
  show ?thesis using h1 h2 h3 c unfolding list_all_iff by - (intro conjI; assumption)
qed

text \<open>
  C1: the claim is that the aging loop leaves the trails bound in this tick alone. The loop
  carries the comment \<open>Age inactive trails\<close> but runs over every trail without testing
  \<open>active\<close>. Here a trail with one position of age 247 is bound to a blob at its own
  place: after the tick the old position has age 239 and the appended one 247, not 255.
\<close>

theorem bound_trail_is_aged:
  "trackBlobs cell_config blobsA trailsA =
     Inr [((0, 0), \<lparr> positions = [\<lparr> pos_x = 100, pos_y = 100, pos_speed = 0, pos_diff = 40, age = 239 \<rparr>,
                                   \<lparr> pos_x = 100, pos_y = 100, pos_speed = 0, pos_diff = 40, age = 247 \<rparr>],
            velocity = (0, 0), smoothedPosition = (100, 100), speed = 0, active = True \<rparr>)]"
  by (simp add: tracker_defs)


text \<open>
  C2: a trail that is not bound to a blob in any of \<open>ceil(255 / trailDecay)\<close> consecutive
  ticks is gone from the trail set at the end of them. A tick in which the trail was not
  bound leaves it inactive or deletes it; ages never exceed 255.
\<close>

theorem unmatched_trail_evicted:
  fixes ticks :: "('a blob_scheme \<times> trail_id) list list"
  assumes "0 < trailDecay cfg"
    and "distinct (map fst ts)"
    and "\<forall>(i, t) \<in> set ts. \<forall>p \<in> set (positions t). age p \<le> 255"
    and "length ticks = nat \<lceil>255 / trailDecay cfg\<rceil>"
    and "\<forall>k < length ticks. \<exists>s. runTicks cfg (take (Suc k) ticks) ts = Inr s \<and>
           (\<forall>t. map_of s tid = Some t \<longrightarrow> \<not> active t)"
  shows "\<exists>s. runTicks cfg ticks ts = Inr s \<and> tid \<notin> fst ` set s"
proof -
  let ?d = "trailDecay cfg"
  have a0: "\<forall>t. map_of ts tid = Some t \<longrightarrow> (\<forall>p \<in> set (positions t). age p \<le> 255)"
    using assms(3) by (auto dest!: map_of_SomeD)
  from unmatched_ages [OF assms(2) a0 assms(5)] obtain s where
    s: "runTicks cfg ticks ts = Inr s"
    and b: "\<forall>t. map_of s tid = Some t \<longrightarrow>
              (\<forall>p \<in> set (positions t). age p \<le> 255 - real (length ticks) * ?d) \<and>
              (ticks \<noteq> [] \<longrightarrow> positions t \<noteq> [] \<and> (\<forall>p \<in> set (positions t). 0 < age p))"
    by blast
  have "255 / ?d \<le> real_of_int \<lceil>255 / ?d\<rceil>" by (rule le_of_int_ceiling)
  moreover have "0 < 255 / ?d" using assms(1) by simp
  ultimately have pos: "0 < \<lceil>255 / ?d\<rceil>" by linarith
  then have n: "real (length ticks) = real_of_int \<lceil>255 / ?d\<rceil>"
    using assms(4) by simp
  have "255 / ?d \<le> real (length ticks)" unfolding n by (rule le_of_int_ceiling)
  then have le: "255 \<le> real (length ticks) * ?d"
    using assms(1) by (simp add: pos_divide_le_eq)
  from pos assms(4) have ne: "ticks \<noteq> []" by auto
  have "map_of s tid = None"
  proof (rule ccontr)
    assume "map_of s tid \<noteq> None"
    then obtain t where t: "map_of s tid = Some t" by blast
    with b ne have p: "positions t \<noteq> []"
      "\<forall>p \<in> set (positions t). age p \<le> 255 - real (length ticks) * ?d"
      "\<forall>p \<in> set (positions t). 0 < age p" by blast+
    from p(1) obtain q where "q \<in> set (positions t)" by (cases "positions t") auto
    with p(2,3) have "0 < age q" "age q \<le> 255 - real (length ticks) * ?d" by blast+
    with le show False by linarith
  qed
  then have "tid \<notin> fst ` set s" by (simp add: map_of_eq_None_iff)
  with s show ?thesis by blast
qed

theorem unmatched_trail_evicted_witness:
  "0 < trailDecay fastDecay \<and> distinct (map fst trailsA) \<and>
   list_all (\<lambda>(i, t). list_all (\<lambda>p. age p \<le> 255) (positions t)) trailsA \<and>
   length twoEmptyTicks = nat \<lceil>255 / trailDecay fastDecay\<rceil> \<and>
   runTicks fastDecay twoEmptyTicks trailsA = Inr []"
proof -
  have h1: "0 < trailDecay fastDecay" by (simp add: tracker_defs)
  have h2: "distinct (map fst trailsA)" by (simp add: trailsA_def)
  have h3: "\<forall>(i, t) \<in> set trailsA. \<forall>p \<in> set (positions t). age p \<le> 255"
    by (simp add: trailsA_def trailA_def)
  have h4: "length twoEmptyTicks = nat \<lceil>255 / trailDecay fastDecay\<rceil>"
    by (simp add: tracker_defs)
  have r1: "runTicks fastDecay (take (Suc 0) twoEmptyTicks) trailsA =
      Inr [((0, 0), trailA\<lparr>positions := [\<lparr> pos_x = 100, pos_y = 100, pos_speed = 0,
        pos_diff = 40, age = 119 \<rparr>], active := False\<rparr>)]"
    by (simp add: tracker_defs)
  have r2: "runTicks fastDecay (take (Suc (Suc 0)) twoEmptyTicks) trailsA = Inr []"
    by (simp add: tracker_defs)
  have h5: "\<forall>k < length twoEmptyTicks. \<exists>s. runTicks fastDecay (take (Suc k) twoEmptyTicks) trailsA = Inr s \<and>
           (\<forall>t. map_of s (0, 0) = Some t \<longrightarrow> \<not> active t)"
  proof (intro allI impI)
    fix k assume "k < length twoEmptyTicks"
    then have "k = 0 \<or> k = Suc 0" by (auto simp: twoEmptyTicks_def)
    then show "\<exists>s. runTicks fastDecay (take (Suc k) twoEmptyTicks) trailsA = Inr s \<and>
           (\<forall>t. map_of s (0, 0) = Some t \<longrightarrow> \<not> active t)"
      using r1 r2 by auto
  qed
  from unmatched_trail_evicted [OF h1 h2 h3 h4 h5] r2
  have "runTicks fastDecay twoEmptyTicks trailsA = Inr []"
    by (simp add: twoEmptyTicks_def)
  with h1 h2 h3 h4 show ?thesis by (simp add: list_all_iff case_prod_beta)
qed


text \<open>
  One step of the loop over the blobs, in terms of the set \<open>matchedTrailIds\<close> as the code
  keeps it, on a trail set whose trails all have a position. The step returns; either it binds
  the blob to a trail that is not in the set, whose distance is below \<open>maxMatchDistance\<close> and
  no larger than that of any other such trail, marks it active and adds its id to the set; or
  no such trail is in range, a new trail is stored with the blob centroid as smoothed
  position, zero velocity and zero speed, and the set is left as it was.
\<close>

lemma matchBlob_step:
  fixes b :: "'a blob_scheme"
  assumes "distinct (map fst ts)" and "\<forall>(tid, t) \<in> set ts. positions t \<noteq> []"
  shows "\<exists>ts' matched'.
     matchBlob cfg (b, newId) (ts, matched) = Inr (ts', matched') \<and>
     matchBlobs cfg ((b, newId) # rest) (ts, matched) = matchBlobs cfg rest (ts', matched') \<and>
     ((\<exists>tid t. (tid, t) \<in> set ts \<and> tid \<notin> matched \<and>
          trailDistance b t < maxMatchDistance cfg \<and>
          (\<forall>(tid', t') \<in> set ts. tid' \<notin> matched \<longrightarrow> trailDistance b t \<le> trailDistance b t') \<and>
          ts' = AList.update tid (trailUpdate cfg b t) ts \<and> matched' = insert tid matched \<and>
          active (trailUpdate cfg b t))
      \<or>
      ((\<forall>(tid', t') \<in> set ts. tid' \<notin> matched \<longrightarrow> \<not> trailDistance b t' < maxMatchDistance cfg) \<and>
        ts' = AList.update newId (trailUpdate cfg b (newTrail b)) ts \<and> matched' = matched \<and>
        smoothedPosition (newTrail b) = (centerX b, centerY b) \<and>
        velocity (newTrail b) = (0, 0) \<and> speed (newTrail b) = 0 \<and>
        smoothedPosition (trailUpdate cfg b (newTrail b)) = (centerX b, centerY b) \<and>
        velocity (trailUpdate cfg b (newTrail b)) = (0, 0) \<and>
        speed (trailUpdate cfg b (newTrail b)) = 0))"
proof -
  from matchBlob_total [OF assms(2)] obtain ts' matched' where
    m: "matchBlob cfg (b, newId) (ts, matched) = Inr (ts', matched')" by (metis surj_pair)
  then have seq: "matchBlobs cfg ((b, newId) # rest) (ts, matched) = matchBlobs cfg rest (ts', matched')"
    by simp
  from matchBlob_cases [OF m assms(1)]
  have "(\<exists>tid t. (tid, t) \<in> set ts \<and> tid \<notin> matched \<and>
          trailDistance b t < maxMatchDistance cfg \<and>
          (\<forall>(tid', t') \<in> set ts. tid' \<notin> matched \<longrightarrow> trailDistance b t \<le> trailDistance b t') \<and>
          ts' = AList.update tid (trailUpdate cfg b t) ts \<and> matched' = insert tid matched \<and>
          active (trailUpdate cfg b t))
      \<or>
      ((\<forall>(tid', t') \<in> set ts. tid' \<notin> matched \<longrightarrow> \<not> trailDistance b t' < maxMatchDistance cfg) \<and>
        ts' = AList.update newId (trailUpdate cfg b (newTrail b)) ts \<and> matched' = matched \<and>
        smoothedPosition (newTrail b) = (centerX b, centerY b) \<and>
        velocity (newTrail b) = (0, 0) \<and> speed (newTrail b) = 0 \<and>
        smoothedPosition (trailUpdate cfg b (newTrail b)) = (centerX b, centerY b) \<and>
        velocity (trailUpdate cfg b (newTrail b)) = (0, 0) \<and>
        speed (trailUpdate cfg b (newTrail b)) = 0)"
  proof
    assume "\<exists>tid t. findBest b matched ts None (maxMatchDistance cfg) = Inr (Some tid) \<and>
            (tid, t) \<in> set ts \<and> tid \<notin> matched \<and>
            ts' = AList.update tid (trailUpdate cfg b t) ts \<and> matched' = insert tid matched"
    then obtain tid t where f: "findBest b matched ts None (maxMatchDistance cfg) = Inr (Some tid)"
      and t: "(tid, t) \<in> set ts" "tid \<notin> matched"
        "ts' = AList.update tid (trailUpdate cfg b t) ts" "matched' = insert tid matched"
      by blast
    from findBest_spec [OF f] have "\<exists>t2. (tid, t2) \<in> set ts \<and>
        trailDistance b t2 < maxMatchDistance cfg \<and>
        (\<forall>(tid', t') \<in> set ts. tid' \<notin> matched \<longrightarrow> trailDistance b t2 \<le> trailDistance b t')"
      by simp blast
    then obtain t2 where
      u: "(tid, t2) \<in> set ts" "trailDistance b t2 < maxMatchDistance cfg"
        "\<forall>(tid', t') \<in> set ts. tid' \<notin> matched \<longrightarrow> trailDistance b t2 \<le> trailDistance b t'"
      by blast
    from u(1) t(1) assms(1) have "t2 = t" by (metis eq_key_imp_eq_value)
    with u t trailUpdate_active [of cfg b t] show ?thesis by blast
  next
    assume a: "findBest b matched ts None (maxMatchDistance cfg) = Inr None \<and>
            ts' = AList.update newId (trailUpdate cfg b (newTrail b)) ts \<and> matched' = matched"
    then have "findBest b matched ts None (maxMatchDistance cfg) = Inr None" by simp
    from findBest_spec [OF this]
    have "\<forall>(tid', t') \<in> set ts. tid' \<notin> matched \<longrightarrow> \<not> trailDistance b t' < maxMatchDistance cfg"
      by auto
    with a newTrail_updated [of cfg b] show ?thesis by (simp add: newTrail_def)
  qed
  with m seq show ?thesis by blast
qed

text \<open>
  C5: the claim is that each blob is bound to the nearest trail among those not yet matched
  in this tick, and is given a new trail when none of them is in range. The code keeps the
  trails matched in this tick in \<open>matchedTrailIds\<close>, but the branch that creates a trail does
  not add the new id to it (the defect of C10). Here the first blob creates the trail
  \<open>(5, 7)\<close> and leaves the set empty; the second blob, ten pixels away, finds that trail as the
  nearest one outside the set and is bound to it, where the claim gives it a trail of its own.
\<close>

theorem created_trail_stays_unmatched:
  "matchBlob cell_config (blobA, (5, 7)) ([], {}) = Inr (afterBlobA, {}) \<and>
   trailDistance blobB (snd (hd afterBlobA)) = 10 \<and>
   matchBlob cell_config (blobB, (5, 8)) (afterBlobA, {}) = Inr (afterBlobB, {(5, 7)}) \<and>
   map fst afterBlobB = [(5, 7)] \<and>
   matchBlobs cell_config blobsAB ([], {}) = Inr (afterBlobB, {(5, 7)})"
  by (simp add: tracker_defs afterBlobA_def afterBlobB_def trailDistance_def)

text \<open>
  C10: the claim is that no trail is updated by two blobs of one tick. The branch that
  creates a trail does not add its id to \<open>matchedTrailIds\<close>, as the branch that binds an
  existing trail does. Here two blobs ten pixels apart arrive on an empty trail set: the first
  creates a trail, the second is bound to that same trail, which ends the tick with two
  positions.
\<close>

theorem new_trail_bound_twice:
  "trackBlobs cell_config blobsAB [] =
     Inr [((5, 7), \<lparr> positions = [\<lparr> pos_x = 100, pos_y = 100, pos_speed = 0, pos_diff = 40, age = 247 \<rparr>,
                                   \<lparr> pos_x = 102, pos_y = 100, pos_speed = 5, pos_diff = 40, age = 247 \<rparr>],
            velocity = (5, 0), smoothedPosition = (102, 100), speed = 5, active = True \<rparr>)]"
  by (simp add: tracker_defs)

section \<open>Properties of the detectors\<close>

lemma sortBySize_sorted: "sorted_wrt (\<lambda>a b. sz a \<ge> sz b) (sortBySize sz xs)"
proof -
  have "sorted (map (\<lambda>b. - int (sz b)) (sort_key (\<lambda>b. - int (sz b)) xs))"
    by (rule sorted_sort_key)
  then have "sorted_wrt (\<lambda>a b. - int (sz a) \<le> - int (sz b)) (sortBySize sz xs)"
    unfolding sortBySize_def by (simp add: sorted_map)
  then show ?thesis by (rule sorted_wrt_mono_rel [rotated]) simp
qed

lemma sortBySize_stable:
  "filter (\<lambda>b. sz b = k) (sortBySize sz xs) = filter (\<lambda>b. sz b = k) xs"
proof -
  have "filter (\<lambda>b. - int (sz b) = - int k) (sort_key (\<lambda>b. - int (sz b)) xs)
      = filter (\<lambda>b. - int (sz b) = - int k) xs"
    by (rule sort_key_stable)
  then show ?thesis unfolding sortBySize_def by simp
qed

lemma sortBySize_set: "set (sortBySize sz xs) = set xs"
  unfolding sortBySize_def by simp

lemma top_blobs:
  "length (take n (sortBySize sz xs)) \<le> n \<and>
   sorted_wrt (\<lambda>a b. sz a \<ge> sz b) (take n (sortBySize sz xs)) \<and>
   (\<forall>k. prefix (filter (\<lambda>b. sz b = k) (take n (sortBySize sz xs))) (filter (\<lambda>b. sz b = k) xs))"
proof (intro conjI allI)
  show "length (take n (sortBySize sz xs)) \<le> n" by simp
  show "sorted_wrt (\<lambda>a b. sz a \<ge> sz b) (take n (sortBySize sz xs))"
    using sortBySize_sorted [of sz xs] by (rule sorted_wrt_take)
  fix k
  have "prefix (take n (sortBySize sz xs)) (sortBySize sz xs)" by (rule take_is_prefix)
  then have "prefix (filter (\<lambda>b. sz b = k) (take n (sortBySize sz xs)))
                    (filter (\<lambda>b. sz b = k) (sortBySize sz xs))"
    by (rule filter_mono_prefix)
  then show "prefix (filter (\<lambda>b. sz b = k) (take n (sortBySize sz xs))) (filter (\<lambda>b. sz b = k) xs)"
    by (simp add: sortBySize_stable)
qed




lemma scanPixels_acc:
  "scanPixels cfg w h motionPixels is visited blobs
     = blobs @ scanPixels cfg w h motionPixels is visited []"
proof (induction "is" arbitrary: visited blobs)
  case Nil
  show ?case by simp
next
  case (Cons i rest)
  show ?case
  proof (cases "mp motionPixels i > 0 \<and> i \<notin> visited")
    case False
    then show ?thesis using Cons.IH [of visited blobs] by auto
  next
    case True
    let ?st = "floodFill w h motionPixels [i] (insert i visited) emptyBlob"
    let ?b = "(fst ?st)\<lparr> centerX := centerX (fst ?st) / real (length (pixels (fst ?st))),
                 centerY := centerY (fst ?st) / real (length (pixels (fst ?st))),
                 avgDiff := totalDiff (fst ?st) / real (length (pixels (fst ?st))) \<rparr>"
    show ?thesis
    proof (cases "length (pixels (fst ?st)) > minBlobSize cfg")
      case False
      with True show ?thesis using Cons.IH [of "snd ?st" blobs] by (simp add: Let_def)
    next
      case big: True
      have "scanPixels cfg w h motionPixels (i # rest) visited blobs
          = scanPixels cfg w h motionPixels rest (snd ?st) (blobs @ [?b])"
        using True big by (simp add: Let_def)
      also have "\<dots> = (blobs @ [?b]) @ scanPixels cfg w h motionPixels rest (snd ?st) []"
        by (rule Cons.IH)
      also have "\<dots> = blobs @ scanPixels cfg w h motionPixels rest (snd ?st) ([] @ [?b])"
        using Cons.IH [of "snd ?st" "[] @ [?b]"] by simp
      also have "scanPixels cfg w h motionPixels rest (snd ?st) ([] @ [?b])
          = scanPixels cfg w h motionPixels (i # rest) visited []"
        using True big by (simp add: Let_def)
      finally show ?thesis .
    qed
  qed
qed

lemma fold_visitNeighbor_length:
  "length queue \<le> length (fst (fold (visitNeighbor w h motionPixels x y) ns (queue, visited)))"
proof (induction ns arbitrary: queue visited)
  case Nil
  show ?case by simp
next
  case (Cons n ns)
  from visitNeighbor_cases [of w h motionPixels x y n queue visited]
  obtain q1 v1 where s: "visitNeighbor w h motionPixels x y n (queue, visited) = (q1, v1)"
    and l: "length queue \<le> length q1"
    by auto
  from Cons.IH [of q1 v1] l s show ?case by simp
qed

lemma floodFill_length:
  "length (pixels blob) + length queue
     \<le> length (pixels (fst (floodFill w h motionPixels queue visited blob)))"
proof (induction w h motionPixels queue visited blob rule: floodFill.induct)
  case (1 w h motionPixels visited blob)
  show ?case by (simp add: floodFill.simps(1))
next
  case (2 w h motionPixels pixelIndex queue visited blob)
  let ?x = "pixelIndex mod w" and ?y = "pixelIndex div w"
  let ?blob' = "blob\<lparr> centerX := centerX blob + real ?x,
                        centerY := centerY blob + real ?y,
                        pixels := pixels blob @ [(?x, ?y, mp motionPixels pixelIndex)],
                        totalDiff := totalDiff blob + mp motionPixels pixelIndex \<rparr>"
  let ?st = "fold (visitNeighbor w h motionPixels ?x ?y) neighbors (queue, visited)"
  have ih: "length (pixels ?blob') + length (fst ?st)
     \<le> length (pixels (fst (floodFill w h motionPixels (fst ?st) (snd ?st) ?blob')))"
    by (rule "2.IH") (rule refl)+
  have "length queue \<le> length (fst ?st)" by (rule fold_visitNeighbor_length)
  with ih show ?case by (simp add: floodFill.simps(2) Let_def)
qed

lemma floodFill_seed_nonempty:
  "0 < length (pixels (fst (floodFill w h motionPixels [i] visited blob)))"
proof -
  from floodFill_length [of blob "[i]" w h motionPixels visited]
  have "Suc (length (pixels blob))
     \<le> length (pixels (fst (floodFill w h motionPixels [i] visited blob)))" by simp
  then show ?thesis by linarith
qed

lemma scanPixels_filter:
  "scanPixels cfg w h motionPixels is visited []
     = filter (\<lambda>b. minBlobSize cfg < length (pixels b))
         (scanPixels (cfg\<lparr>minBlobSize := 0\<rparr>) w h motionPixels is visited [])"
proof (induction "is" arbitrary: visited)
  case Nil
  show ?case by simp
next
  case (Cons i rest)
  show ?case
  proof (cases "mp motionPixels i > 0 \<and> i \<notin> visited")
    case False
    then show ?thesis using Cons.IH [of visited] by auto
  next
    case True
    let ?st = "floodFill w h motionPixels [i] (insert i visited) emptyBlob"
    let ?b = "(fst ?st)\<lparr> centerX := centerX (fst ?st) / real (length (pixels (fst ?st))),
                 centerY := centerY (fst ?st) / real (length (pixels (fst ?st))),
                 avgDiff := totalDiff (fst ?st) / real (length (pixels (fst ?st))) \<rparr>"
    have pos: "0 < length (pixels (fst ?st))" by (rule floodFill_seed_nonempty)
    have all: "scanPixels (cfg\<lparr>minBlobSize := 0\<rparr>) w h motionPixels (i # rest) visited []
        = [?b] @ scanPixels (cfg\<lparr>minBlobSize := 0\<rparr>) w h motionPixels rest (snd ?st) []"
      using True pos scanPixels_acc [of "cfg\<lparr>minBlobSize := 0\<rparr>" w h motionPixels rest "snd ?st" "[?b]"]
      by (simp add: Let_def)
    show ?thesis
    proof (cases "length (pixels (fst ?st)) > minBlobSize cfg")
      case False
      with True have "scanPixels cfg w h motionPixels (i # rest) visited []
          = scanPixels cfg w h motionPixels rest (snd ?st) []"
        by (simp add: Let_def)
      with Cons.IH [of "snd ?st"] all False show ?thesis by simp
    next
      case big: True
      with True have "scanPixels cfg w h motionPixels (i # rest) visited []
          = [?b] @ scanPixels cfg w h motionPixels rest (snd ?st) []"
        using scanPixels_acc [of cfg w h motionPixels rest "snd ?st" "[?b]"]
        by (simp add: Let_def)
      with Cons.IH [of "snd ?st"] all big show ?thesis by simp
    qed
  qed
qed

lemma scanCells_acc:
  "scanCells cfg gw gh grid cs visited blobs = blobs @ scanCells cfg gw gh grid cs visited []"
proof (induction cs arbitrary: visited blobs)
  case Nil
  show ?case by simp
next
  case (Cons c rest)
  show ?case
  proof (cases "motion (grid ! snd c ! fst c) \<and> c \<notin> visited")
    case False
    then show ?thesis using Cons.IH [of visited blobs] by auto
  next
    case True
    let ?st = "floodCells gw gh grid [c] (insert c visited) emptyAcc"
    let ?n = "length (cellsInBlob (fst ?st))"
    let ?b = "\<lparr> centerX = acc_centerX (fst ?st) / real ?n * real (gridSize cfg)
                          + real (gridSize cfg) / 2,
                centerY = acc_centerY (fst ?st) / real ?n * real (gridSize cfg)
                          + real (gridSize cfg) / 2,
                avgDiff = acc_totalDiff (fst ?st) / real ?n,
                blob_size = ?n \<rparr>"
    show ?thesis
    proof (cases "?n \<ge> minBlobSize cfg")
      case False
      with True show ?thesis using Cons.IH [of "snd ?st" blobs] by (simp add: Let_def)
    next
      case big: True
      have "scanCells cfg gw gh grid (c # rest) visited blobs
          = scanCells cfg gw gh grid rest (snd ?st) (blobs @ [?b])"
        using True big by (simp add: Let_def)
      also have "\<dots> = (blobs @ [?b]) @ scanCells cfg gw gh grid rest (snd ?st) []"
        by (rule Cons.IH)
      also have "\<dots> = blobs @ scanCells cfg gw gh grid rest (snd ?st) ([] @ [?b])"
        using Cons.IH [of "snd ?st" "[] @ [?b]"] by simp
      also have "scanCells cfg gw gh grid rest (snd ?st) ([] @ [?b])
          = scanCells cfg gw gh grid (c # rest) visited []"
        using True big by (simp add: Let_def)
      finally show ?thesis .
    qed
  qed
qed

lemma scanCells_filter:
  "scanCells cfg gw gh grid cs visited []
     = filter (\<lambda>b. minBlobSize cfg \<le> blob_size b)
         (scanCells (cfg\<lparr>minBlobSize := 0\<rparr>) gw gh grid cs visited [])"
proof (induction cs arbitrary: visited)
  case Nil
  show ?case by simp
next
  case (Cons c rest)
  show ?case
  proof (cases "motion (grid ! snd c ! fst c) \<and> c \<notin> visited")
    case False
    then show ?thesis using Cons.IH [of visited] by auto
  next
    case True
    let ?st = "floodCells gw gh grid [c] (insert c visited) emptyAcc"
    let ?n = "length (cellsInBlob (fst ?st))"
    let ?b = "\<lparr> centerX = acc_centerX (fst ?st) / real ?n * real (gridSize cfg)
                          + real (gridSize cfg) / 2,
                centerY = acc_centerY (fst ?st) / real ?n * real (gridSize cfg)
                          + real (gridSize cfg) / 2,
                avgDiff = acc_totalDiff (fst ?st) / real ?n,
                blob_size = ?n \<rparr>"
    have all: "scanCells (cfg\<lparr>minBlobSize := 0\<rparr>) gw gh grid (c # rest) visited []
        = [?b] @ scanCells (cfg\<lparr>minBlobSize := 0\<rparr>) gw gh grid rest (snd ?st) []"
      using True scanCells_acc [of "cfg\<lparr>minBlobSize := 0\<rparr>" gw gh grid rest "snd ?st" "[?b]"]
      by (simp add: Let_def)
    show ?thesis
    proof (cases "?n \<ge> minBlobSize cfg")
      case False
      with True have "scanCells cfg gw gh grid (c # rest) visited []
          = scanCells cfg gw gh grid rest (snd ?st) []"
        by (simp add: Let_def)
      with Cons.IH [of "snd ?st"] all False show ?thesis by simp
    next
      case big: True
      with True have "scanCells cfg gw gh grid (c # rest) visited []
          = [?b] @ scanCells cfg gw gh grid rest (snd ?st) []"
        using scanCells_acc [of cfg gw gh grid rest "snd ?st" "[?b]"]
        by (simp add: Let_def)
      with Cons.IH [of "snd ?st"] all big show ?thesis by simp
    qed
  qed
qed

lemma markCell_minBlobSize: "markCell (cfg\<lparr>minBlobSize := m\<rparr>) img = markCell cfg img"
  by (intro ext) (simp add: markCell_def Let_def split: prod.splits option.splits)

lemma normalizeGrid_minBlobSize: "normalizeGrid (cfg\<lparr>minBlobSize := m\<rparr>) g = normalizeGrid cfg g"
  by (simp add: normalizeGrid_def)

lemma motionGrid_minBlobSize: "motionGrid (cfg\<lparr>minBlobSize := m\<rparr>) img = motionGrid cfg img"
  by (simp add: motionGrid_def normalizeGrid_minBlobSize markCell_minBlobSize)

lemma cellBlobs_filter:
  "cellBlobs cfg img
     = filter (\<lambda>b. minBlobSize cfg \<le> blob_size b) (cellBlobs (cfg\<lparr>minBlobSize := 0\<rparr>) img)"
  unfolding cellBlobs_def Let_def
  by (simp add: motionGrid_minBlobSize) (rule scanCells_filter)

lemma pixelBlobs_filter:
  "pixelBlobs cfg w h motionPixels
     = filter (\<lambda>b. minBlobSize cfg < length (pixels b))
         (pixelBlobs (cfg\<lparr>minBlobSize := 0\<rparr>) w h motionPixels)"
  unfolding pixelBlobs_def by (rule scanPixels_filter)


lemma channelDiff_same: "channelDiff c c = None \<or> channelDiff c c = Some 0"
  by (cases c) (simp_all add: channelDiff_def)

lemma jsSet_zero:
  assumes "\<forall>v \<in> set xs. v = 0"
  shows "\<forall>v \<in> set (jsSet xs i 0). v = 0"
proof (cases "i < length xs")
  case True
  have "set (xs[i := 0]) \<subseteq> insert 0 (set xs)" by (rule set_update_subset_insert)
  with assms True show ?thesis by (auto simp: jsSet_def)
next
  case False
  with assms show ?thesis by (auto simp: jsSet_def)
qed

lemma markMotionPixel_same:
  "markMotionPixel cfg w f f xy motionPixels = motionPixels \<or>
   (\<exists>i. markMotionPixel cfg w f f xy motionPixels = jsSet motionPixels i 0)"
proof -
  obtain x y where xy: "xy = (x, y)" by (cases xy)
  let ?i = "(y * w + x) * 4"
  let ?r = "channelDiff (byteAt (img_pixels f) ?i) (byteAt (img_pixels f) ?i)"
  let ?g = "channelDiff (byteAt (img_pixels f) (?i + 1)) (byteAt (img_pixels f) (?i + 1))"
  let ?b = "channelDiff (byteAt (img_pixels f) (?i + 2)) (byteAt (img_pixels f) (?i + 2))"
  show ?thesis
  proof (cases "?r = Some 0 \<and> ?g = Some 0 \<and> ?b = Some 0")
    case True
    then have "markMotionPixel cfg w f f xy motionPixels =
        (if 0 > motionThreshold cfg then jsSet motionPixels (y * w + x) 0 else motionPixels)"
      unfolding markMotionPixel_def xy Let_def by simp
    then show ?thesis by auto
  next
    case False
    with channelDiff_same have "?r = None \<or> ?g = None \<or> ?b = None" by metis
    then have "markMotionPixel cfg w f f xy motionPixels = motionPixels"
      unfolding markMotionPixel_def xy Let_def by (auto split: option.splits)
    then show ?thesis by simp
  qed
qed

lemma fold_markMotionPixel_zero:
  assumes "\<forall>v \<in> set motionPixels. v = 0"
  shows "\<forall>v \<in> set (fold (markMotionPixel cfg w f f) cs motionPixels). v = 0"
  using assms
proof (induction cs arbitrary: motionPixels)
  case Nil
  then show ?case by simp
next
  case (Cons c cs)
  from markMotionPixel_same [of cfg w f c motionPixels] jsSet_zero [OF Cons.prems]
  have "\<forall>v \<in> set (markMotionPixel cfg w f f c motionPixels). v = 0"
    using Cons.prems by metis
  from Cons.IH [OF this] show ?case by simp
qed

lemma motionSignal_zero: "\<forall>v \<in> set (motionSignal cfg w h f f motionPixels). v = 0"
  unfolding motionSignal_def by (rule fold_markMotionPixel_zero) simp

lemma mp_zero:
  assumes "\<forall>v \<in> set motionPixels. v = 0"
  shows "mp motionPixels i = 0"
  using assms by (simp add: mp_def)

lemma scanPixels_no_motion:
  assumes "\<forall>i. \<not> mp motionPixels i > 0"
  shows "scanPixels cfg w h motionPixels is visited blobs = blobs"
  using assms by (induction "is" arbitrary: visited blobs) simp_all

lemma findMotionBlobs_pixel_zero:
  assumes "\<forall>v \<in> set motionPixels. v = 0"
  shows "findMotionBlobs_pixel cfg w h motionPixels = []"
proof -
  from mp_zero [OF assms] have "\<forall>i. \<not> mp motionPixels i > 0" by simp
  from scanPixels_no_motion [OF this] show ?thesis
    by (simp add: findMotionBlobs_pixel_def pixelBlobs_def sortBySize_def)
qed

lemma toUint8Clamp_same: "toUint8Clamp (brightnessDiff b b) = 0"
  by (cases b) (simp_all add: toUint8Clamp_def brightnessDiff_def)

lemma diffPixel_alphaZero:
  assumes "alphaZero ps"
  shows "alphaZero (diffPixel f f (4 * j) ps)"
proof -
  let ?q = "ps[4 * j + 2 := 255, 4 * j + 1 := 255, 4 * j := 255, 4 * j + 3 := 0]"
  have e: "diffPixel f f (4 * j) ps = ?q"
    by (simp add: diffPixel_def Let_def toUint8Clamp_same)
  have "\<And>k. 4 * k + 3 < length ?q \<Longrightarrow> ?q ! (4 * k + 3) = 0"
  proof -
    fix k assume l: "4 * k + 3 < length ?q"
    then have l': "4 * k + 3 < length ps" by simp
    have n1: "4 * j + 2 \<noteq> 4 * k + 3" by presburger
    have n2: "4 * j + 1 \<noteq> 4 * k + 3" by presburger
    have n3: "4 * j \<noteq> 4 * k + 3" by presburger
    show "?q ! (4 * k + 3) = 0"
    proof (cases "k = j")
      case True
      with l' show ?thesis by simp
    next
      case False
      then have "4 * j + 3 \<noteq> 4 * k + 3" by simp
      with n1 n2 n3 assms l' show ?thesis by (simp add: alphaZero_def)
    qed
  qed
  then show ?thesis unfolding e alphaZero_def by blast
qed

lemma fold_diffPixel_alphaZero:
  assumes "alphaZero ps"
  shows "alphaZero (fold (diffPixel f f) (map (\<lambda>k. 4 * k) ks) ps)"
  using assms
proof (induction ks arbitrary: ps)
  case Nil
  then show ?case by simp
next
  case (Cons k ks)
  from diffPixel_alphaZero [OF Cons.prems, of f k]
  have "alphaZero (diffPixel f f (4 * k) ps)" .
  from Cons.IH [OF this] show ?case by simp
qed

lemma createDifferenceImage_alphaZero:
  "alphaZero (img_pixels (createDifferenceImage f f))"
proof -
  have "alphaZero (img_pixels (createImage (img_width f) (img_height f)))"
    by (simp add: alphaZero_def createImage_def)
  from fold_diffPixel_alphaZero [OF this]
  show ?thesis by (simp add: createDifferenceImage_def Let_def)
qed

lemma markCell_quiet:
  assumes "alphaZero (img_pixels img)" and "0 \<le> motionThreshold cfg"
  shows "markCell cfg img xy g = g"
proof -
  obtain x y where xy: "xy = (x, y)" by (cases xy)
  let ?i = "(y * img_width img + x) * 4 + 3"
  have i: "?i = 4 * (y * img_width img + x) + 3" by simp
  show ?thesis
  proof (cases "byteAt (img_pixels img) ?i")
    case None
    then show ?thesis by (simp add: markCell_def xy Let_def)
  next
    case (Some a)
    then have "?i < length (img_pixels img)" "a = img_pixels img ! ?i"
      by (auto simp: byteAt_def split: if_splits)
    with assms(1) have "a = 0" unfolding alphaZero_def i by blast
    with Some assms(2) show ?thesis by (simp add: markCell_def xy Let_def)
  qed
qed

lemma fold_markCell_quiet:
  assumes "alphaZero (img_pixels img)" and "0 \<le> motionThreshold cfg"
  shows "fold (markCell cfg img) cs g = g"
  by (induction cs) (simp_all add: markCell_quiet [OF assms])

lemma set_pixelCoords: "set (pixelCoords w h) = {(x, y). x < w \<and> y < h}"
  by (auto simp: pixelCoords_def)

lemma initGrid_nth:
  "x < gw \<Longrightarrow> y < gh \<Longrightarrow> initGrid gw gh ! y ! x = \<lparr> motion = False, cell_avgDiff = 0 \<rparr>"
  by (simp add: initGrid_def)

lemma normalizeGrid_initGrid: "normalizeGrid cfg (initGrid gw gh) = initGrid gw gh"
  by (simp add: normalizeGrid_def initGrid_def)

lemma scanCells_no_motion:
  assumes "\<forall>c \<in> set cs. \<not> motion (grid ! snd c ! fst c)"
  shows "scanCells cfg gw gh grid cs visited blobs = blobs"
  using assms by (induction cs arbitrary: visited blobs) simp_all

lemma findMotionBlobs_cell_quiet:
  assumes "alphaZero (img_pixels img)" and "0 \<le> motionThreshold cfg" and "0 < gridSize cfg"
  shows "findMotionBlobs_cell cfg img = Inr []"
proof -
  let ?gw = "gridCells (img_width img) (gridSize cfg)"
  let ?gh = "gridCells (img_height img) (gridSize cfg)"
  have g: "motionGrid cfg img = initGrid ?gw ?gh"
    by (simp add: motionGrid_def fold_markCell_quiet [OF assms(1,2)] normalizeGrid_initGrid)
  have "\<forall>c \<in> set (pixelCoords ?gw ?gh). \<not> motion (initGrid ?gw ?gh ! snd c ! fst c)"
    by (auto simp: set_pixelCoords initGrid_nth)
  from scanCells_no_motion [OF this] have "cellBlobs cfg img = []"
    by (simp add: cellBlobs_def Let_def g)
  with assms(3) show ?thesis by (simp add: findMotionBlobs_cell_def sortBySize_def)
qed


lemma wfGrid_update:
  assumes "wfGrid gw gh g"
  shows "wfGrid gw gh (g[gy := (g ! gy)[gx := c]])"
proof (cases "gy < length g")
  case False
  then have "length g \<le> gy" by simp
  then have "g[gy := (g ! gy)[gx := c]] = g" by (rule list_update_beyond)
  with assms show ?thesis by simp
next
  case True
  have "\<And>y. y < gh \<Longrightarrow> length (g[gy := (g ! gy)[gx := c]] ! y) = gw"
  proof -
    fix y assume y: "y < gh"
    with assms have ly: "y < length g" and r: "length (g ! y) = gw" by (simp_all add: wfGrid_def)
    show "length (g[gy := (g ! gy)[gx := c]] ! y) = gw"
    proof (cases "y = gy")
      case True
      with ly r show ?thesis by simp
    next
      case False
      with r show ?thesis by simp
    qed
  qed
  with assms show ?thesis by (simp add: wfGrid_def)
qed

lemma grid_update_nth:
  assumes "wfGrid gw gh g" and "gx < gw" and "gy < gh"
  shows "g[gy0 := (g ! gy0)[gx0 := c]] ! gy ! gx
       = (if gy = gy0 \<and> gx = gx0 then c else g ! gy ! gx)"
proof (cases "gy = gy0")
  case False
  then show ?thesis by simp
next
  case True
  from assms have ly: "gy < length g" and r: "length (g ! gy) = gw" by (simp_all add: wfGrid_def)
  from True ly have "g[gy0 := (g ! gy0)[gx0 := c]] ! gy = (g ! gy)[gx0 := c]" by simp
  moreover have "(g ! gy)[gx0 := c] ! gx = (if gx = gx0 then c else g ! gy ! gx)"
    using r assms(2) by (simp add: nth_list_update)
  ultimately show ?thesis using True by simp
qed

lemma markCell_cases:
  "(markCell cfg img (x, y) g = g \<and> (\<forall>gx gy. cellValue cfg img gx gy (x, y) = [])) \<or>
   (\<exists>a. markCell cfg img (x, y) g =
          g[y div gridSize cfg := (g ! (y div gridSize cfg))[x div gridSize cfg :=
              \<lparr> motion = True,
                cell_avgDiff = cell_avgDiff (g ! (y div gridSize cfg) ! (x div gridSize cfg)) + a \<rparr>]] \<and>
        (\<forall>gx gy. cellValue cfg img gx gy (x, y) =
           (if x div gridSize cfg = gx \<and> y div gridSize cfg = gy then [a] else [])))"
proof (cases "byteAt (img_pixels img) ((y * img_width img + x) * 4 + 3)")
  case None
  then show ?thesis by (simp add: markCell_def cellValue_def Let_def)
next
  case (Some a)
  show ?thesis
  proof (cases "real_of_int a > motionThreshold cfg")
    case True
    with Some show ?thesis by (simp add: markCell_def cellValue_def Let_def)
  next
    case False
    with Some show ?thesis by (simp add: markCell_def cellValue_def Let_def)
  qed
qed

lemma markCell_wf:
  assumes "wfGrid gw gh g"
  shows "wfGrid gw gh (markCell cfg img xy g)"
proof -
  obtain x y where xy: "xy = (x, y)" by (cases xy)
  from markCell_cases [of cfg img x y g] wfGrid_update [OF assms] assms
  show ?thesis unfolding xy by metis
qed

lemma markCell_cell:
  assumes "wfGrid gw gh g" and "gx < gw" and "gy < gh"
  shows "motion (markCell cfg img xy g ! gy ! gx)
           = (motion (g ! gy ! gx) \<or> cellValue cfg img gx gy xy \<noteq> []) \<and>
         cell_avgDiff (markCell cfg img xy g ! gy ! gx)
           = cell_avgDiff (g ! gy ! gx) + sum_list (cellValue cfg img gx gy xy)"
proof -
  obtain x y where xy: "xy = (x, y)" by (cases xy)
  from markCell_cases [of cfg img x y g] show ?thesis
  proof
    assume "markCell cfg img (x, y) g = g \<and> (\<forall>gx gy. cellValue cfg img gx gy (x, y) = [])"
    then show ?thesis unfolding xy by simp
  next
    assume "\<exists>a. markCell cfg img (x, y) g =
          g[y div gridSize cfg := (g ! (y div gridSize cfg))[x div gridSize cfg :=
              \<lparr> motion = True,
                cell_avgDiff = cell_avgDiff (g ! (y div gridSize cfg) ! (x div gridSize cfg)) + a \<rparr>]] \<and>
        (\<forall>gx gy. cellValue cfg img gx gy (x, y) =
           (if x div gridSize cfg = gx \<and> y div gridSize cfg = gy then [a] else []))"
    then obtain a where m: "markCell cfg img (x, y) g =
          g[y div gridSize cfg := (g ! (y div gridSize cfg))[x div gridSize cfg :=
              \<lparr> motion = True,
                cell_avgDiff = cell_avgDiff (g ! (y div gridSize cfg) ! (x div gridSize cfg)) + a \<rparr>]]"
      and v: "cellValue cfg img gx gy (x, y) =
           (if x div gridSize cfg = gx \<and> y div gridSize cfg = gy then [a] else [])"
      by blast
    show ?thesis
      unfolding xy m v grid_update_nth [OF assms] by auto
  qed
qed

lemma fold_markCell_cell:
  assumes "wfGrid gw gh g" and "gx < gw" and "gy < gh"
  shows "motion (fold (markCell cfg img) cs g ! gy ! gx)
           = (motion (g ! gy ! gx) \<or> concat (map (cellValue cfg img gx gy) cs) \<noteq> []) \<and>
         cell_avgDiff (fold (markCell cfg img) cs g ! gy ! gx)
           = cell_avgDiff (g ! gy ! gx) + sum_list (concat (map (cellValue cfg img gx gy) cs))"
  using assms(1)
proof (induction cs arbitrary: g)
  case Nil
  show ?case by simp
next
  case (Cons c cs)
  have w: "wfGrid gw gh (markCell cfg img c g)" using Cons.prems by (rule markCell_wf)
  from Cons.IH [OF w] markCell_cell [OF Cons.prems assms(2,3), of cfg img c]
  show ?case by auto
qed

lemma fold_markCell_wf:
  assumes "wfGrid gw gh g"
  shows "wfGrid gw gh (fold (markCell cfg img) cs g)"
  using assms by (induction cs arbitrary: g) (simp_all add: markCell_wf)

lemma wfGrid_initGrid: "wfGrid gw gh (initGrid gw gh)"
  by (simp add: wfGrid_def initGrid_def)

lemma normalizeGrid_nth:
  assumes "wfGrid gw gh g" and "gx < gw" and "gy < gh"
  shows "normalizeGrid cfg g ! gy ! gx =
     (if motion (g ! gy ! gx)
      then (g ! gy ! gx)\<lparr>cell_avgDiff := cell_avgDiff (g ! gy ! gx) / real (gridSize cfg * gridSize cfg)\<rparr>
      else g ! gy ! gx)"
  using assms by (simp add: normalizeGrid_def wfGrid_def)

lemma motionGrid_cell:
  assumes "gx < gridCells (img_width img) (gridSize cfg)"
    and "gy < gridCells (img_height img) (gridSize cfg)"
  shows "motion (motionGrid cfg img ! gy ! gx) = (contributing cfg img gx gy \<noteq> []) \<and>
         cell_avgDiff (motionGrid cfg img ! gy ! gx)
           = sum_list (contributing cfg img gx gy) / real (gridSize cfg * gridSize cfg)"
proof -
  let ?gw = "gridCells (img_width img) (gridSize cfg)"
  let ?gh = "gridCells (img_height img) (gridSize cfg)"
  let ?cs = "pixelCoords (img_width img) (img_height img)"
  let ?g = "fold (markCell cfg img) ?cs (initGrid ?gw ?gh)"
  have w: "wfGrid ?gw ?gh ?g" using wfGrid_initGrid by (rule fold_markCell_wf)
  from fold_markCell_cell [OF wfGrid_initGrid assms, of cfg img ?cs]
  have m: "motion (?g ! gy ! gx) = (contributing cfg img gx gy \<noteq> [])"
    and a: "cell_avgDiff (?g ! gy ! gx) = sum_list (contributing cfg img gx gy)"
    using assms by (simp_all add: initGrid_nth contributing_def)
  have z: "contributing cfg img gx gy = [] \<Longrightarrow> sum_list (contributing cfg img gx gy) = 0"
    by simp
  show ?thesis
    unfolding motionGrid_def normalizeGrid_nth [OF w assms]
    using m a z by auto
qed

lemma cellValue_nonempty:
  "cellValue cfg img gx gy (x, y) \<noteq> [] \<longleftrightarrow>
     (x div gridSize cfg = gx \<and> y div gridSize cfg = gy \<and>
      (\<exists>a. byteAt (img_pixels img) ((y * img_width img + x) * 4 + 3) = Some a \<and>
           real_of_int a > motionThreshold cfg))"
proof (cases "byteAt (img_pixels img) ((y * img_width img + x) * 4 + 3)")
  case None
  then show ?thesis by (simp add: cellValue_def)
next
  case (Some a)
  then show ?thesis by (auto simp: cellValue_def)
qed

lemma contributing_nonempty:
  "contributing cfg img gx gy \<noteq> [] \<longleftrightarrow>
     (\<exists>x y a. x < img_width img \<and> y < img_height img \<and>
        x div gridSize cfg = gx \<and> y div gridSize cfg = gy \<and>
        byteAt (img_pixels img) ((y * img_width img + x) * 4 + 3) = Some a \<and>
        real_of_int a > motionThreshold cfg)"
proof -
  have "contributing cfg img gx gy \<noteq> [] \<longleftrightarrow>
      (\<exists>xy \<in> set (pixelCoords (img_width img) (img_height img)). cellValue cfg img gx gy xy \<noteq> [])"
    by (auto simp: contributing_def)
  also have "\<dots> \<longleftrightarrow> (\<exists>x y. x < img_width img \<and> y < img_height img \<and>
      cellValue cfg img gx gy (x, y) \<noteq> [])"
    by (auto simp: set_pixelCoords)
  also have "\<dots> \<longleftrightarrow> (\<exists>x y a. x < img_width img \<and> y < img_height img \<and>
        x div gridSize cfg = gx \<and> y div gridSize cfg = gy \<and>
        byteAt (img_pixels img) ((y * img_width img + x) * 4 + 3) = Some a \<and>
        real_of_int a > motionThreshold cfg)"
    unfolding cellValue_nonempty by blast
  finally show ?thesis .
qed



lemma mp_row: "mp (replicate m v @ replicate r 0) i = (if i < m then v else 0)"
  by (simp add: mp_def nth_append)

lemma row_neighbors:
  assumes "k < m" and "m \<le> w" and "0 < v" and "0 < h"
  shows "fold (visitNeighbor w h (replicate m v @ replicate r 0) k 0) neighbors ([], {..k})
       = (if Suc k < m then ([Suc k], {..Suc k}) else ([], {..k}))"
proof -
  let ?px = "replicate m v @ replicate r 0"
  have l: "visitNeighbor w h ?px k 0 (- 1, 0) ([], {..k}) = ([], {..k})"
  proof (cases k)
    case 0
    then show ?thesis by (simp add: visitNeighbor_def Let_def)
  next
    case (Suc j)
    then have "nat (int k + - 1) = j" by simp
    with Suc show ?thesis by (simp add: visitNeighbor_def Let_def)
  qed
  have r: "visitNeighbor w h ?px k 0 (1, 0) ([], {..k})
       = (if Suc k < m then ([Suc k], {..Suc k}) else ([], {..k}))"
  proof -
    have "nat (int k + 1) = Suc k" by simp
    moreover have "Suc k < m \<Longrightarrow> int k + 1 < int w" using assms(2) by simp
    ultimately show ?thesis using assms
      by (auto simp: visitNeighbor_def Let_def mp_row atMost_Suc)
  qed
  have u: "\<And>st. visitNeighbor w h ?px k 0 (0, - 1) st = st"
    by (simp add: visitNeighbor_def Let_def split: prod.splits)
  have d: "\<And>st. visitNeighbor w h ?px k 0 (0, 1) st = st"
  proof -
    fix st :: "nat list \<times> nat set"
    have "\<not> (w + k < m)" using assms(2) by simp
    then show "visitNeighbor w h ?px k 0 (0, 1) st = st"
      by (simp add: visitNeighbor_def Let_def mp_row split: prod.splits)
  qed
  show ?thesis unfolding neighbors_def by (simp add: l r u d)
qed

lemma row_flood:
  assumes "m \<le> w" and "0 < v" and "0 < h"
  shows "k < m \<Longrightarrow>
     length (pixels (fst (floodFill w h (replicate m v @ replicate r 0) [k] {..k} blob)))
       = length (pixels blob) + (m - k) \<and>
     snd (floodFill w h (replicate m v @ replicate r 0) [k] {..k} blob) = {..< m}"
proof (induction "m - k" arbitrary: k blob)
  case 0
  then show ?case by simp
next
  case (Suc j)
  let ?px = "replicate m v @ replicate r 0"
  let ?blob' = "blob\<lparr> centerX := centerX blob + real k,
                        centerY := centerY blob + real (0 :: nat),
                        pixels := pixels blob @ [(k, 0, mp ?px k)],
                        totalDiff := totalDiff blob + mp ?px k \<rparr>"
  from Suc.prems assms(1) have kd: "k mod w = k" "k div w = 0" by simp_all
  note nb = row_neighbors [OF Suc.prems assms, of r]
  show ?case
  proof (cases "Suc k < m")
    case True
    have step: "floodFill w h ?px [k] {..k} blob = floodFill w h ?px [Suc k] {..Suc k} ?blob'"
      by (subst floodFill.simps(2)) (simp add: Let_def kd nb True)
    from Suc.hyps(2) have "j = m - Suc k" by simp
    from Suc.hyps(1) [OF this True, of ?blob'] True show ?thesis
      unfolding step by simp
  next
    case False
    with Suc.prems have e: "Suc k = m" by simp
    have step: "floodFill w h ?px [k] {..k} blob = (?blob', {..k})"
      by (subst floodFill.simps(2)) (simp add: Let_def kd nb False floodFill.simps(1))
    from e have "{..k} = {..< m}" by (auto simp: lessThan_Suc_atMost [symmetric])
    with e show ?thesis unfolding step by auto
  qed
qed

lemma scanPixels_skip:
  assumes "\<forall>i \<in> set is. i \<in> visited \<or> \<not> mp motionPixels i > 0"
  shows "scanPixels cfg w h motionPixels is visited blobs = blobs"
  using assms by (induction "is" arbitrary: blobs) auto

lemma row_blobs:
  assumes "0 < v" and "0 < m" and "m \<le> w" and "0 < h"
  shows "pixelBlobs cfg w h (replicate m v @ replicate r 0) =
     (if minBlobSize cfg < m
      then [(fst (floodFill w h (replicate m v @ replicate r 0) [0] {0} emptyBlob))
              \<lparr> centerX := centerX (fst (floodFill w h (replicate m v @ replicate r 0) [0] {0} emptyBlob)) / real m,
                centerY := centerY (fst (floodFill w h (replicate m v @ replicate r 0) [0] {0} emptyBlob)) / real m,
                avgDiff := totalDiff (fst (floodFill w h (replicate m v @ replicate r 0) [0] {0} emptyBlob)) / real m \<rparr>]
      else [])"
proof -
  let ?px = "replicate m v @ replicate r 0"
  let ?st = "floodFill w h ?px [0] {0} emptyBlob"
  from row_flood [OF assms(3,1,4), of 0 r emptyBlob] assms(2)
  have len: "length (pixels (fst ?st)) = m" and vis: "snd ?st = {..< m}"
    by (simp_all add: emptyBlob_def)
  have up: "[0 ..< length ?px] = 0 # [Suc 0 ..< m + r]" using assms(2) by (simp add: upt_conv_Cons)
  have rest: "\<And>blobs. scanPixels cfg w h ?px [Suc 0 ..< m + r] {..< m} blobs = blobs"
    by (rule scanPixels_skip) (simp add: mp_row)
  have m0: "mp ?px 0 > 0 \<and> 0 \<notin> ({} :: nat set)" using assms by (simp add: mp_row)
  have "pixelBlobs cfg w h ?px = scanPixels cfg w h ?px (0 # [Suc 0 ..< m + r]) {} []"
    unfolding pixelBlobs_def up ..
  also have "\<dots> =
     (if minBlobSize cfg < m
      then scanPixels cfg w h ?px [Suc 0 ..< m + r] {..< m}
             ([] @ [(fst ?st)\<lparr> centerX := centerX (fst ?st) / real m,
                    centerY := centerY (fst ?st) / real m,
                    avgDiff := totalDiff (fst ?st) / real m \<rparr>])
      else scanPixels cfg w h ?px [Suc 0 ..< m + r] {..< m} [])"
    unfolding scanPixels.simps(2) Let_def using m0 len vis by simp
  finally show ?thesis unfolding rest by simp
qed

lemma row_of_minimum_size_dropped:
  assumes "0 < v" and "0 < m" and "m \<le> w" and "0 < h" and "minBlobSize cfg = m"
  shows "findMotionBlobs_pixel cfg w h (replicate m v @ replicate r 0) = []"
  using row_blobs [OF assms(1,2,3,4), of cfg r] assms(5)
  by (simp add: findMotionBlobs_pixel_def sortBySize_def)

lemma row_component_size:
  assumes "0 < v" and "0 < m" and "m \<le> w" and "0 < h"
  shows "map (\<lambda>b. length (pixels b))
           (pixelBlobs (cfg\<lparr>minBlobSize := 0\<rparr>) w h (replicate m v @ replicate r 0)) = [m]"
proof -
  from row_flood [OF assms(3,1,4), of 0 r emptyBlob] assms(2)
  have len: "length (pixels (fst (floodFill w h (replicate m v @ replicate r 0) [0] {0} emptyBlob))) = m"
    by (simp add: emptyBlob_def)
  show ?thesis using row_blobs [OF assms, of "cfg\<lparr>minBlobSize := 0\<rparr>" r] assms(2) len
    by simp
qed


text \<open>
  C3: the claim is that a component is kept iff its size is at least the configured minimum,
  in both variants. The cell variant tests \<open>cellsInBlob.length >= MIN_GRIDS_FOR_BLOB\<close>; the
  pixel variant tests \<open>blob.pixels.length > minBlobSize\<close>, so it keeps exactly the components
  that are strictly larger than \<open>minBlobSize\<close> and drops one of exactly that size. In a
  640 by 480 frame whose only motion is the first 200 pixels of the top row, the one component
  has 200 pixels and the pixel variant, with its minimum of 200, returns no blob.
\<close>

theorem pixel_minimum_is_strict:
  "pixelBlobs cfg w h motionPixels
     = filter (\<lambda>b. minBlobSize cfg < length (pixels b))
         (pixelBlobs (cfg\<lparr>minBlobSize := 0\<rparr>) w h motionPixels) \<and>
   cellBlobs cfg diffImage
     = filter (\<lambda>b. minBlobSize cfg \<le> blob_size b) (cellBlobs (cfg\<lparr>minBlobSize := 0\<rparr>) diffImage) \<and>
   length rowSignal = 640 * 480 \<and>
   map (\<lambda>b. length (pixels b)) (pixelBlobs (pixel_config\<lparr>minBlobSize := 0\<rparr>) 640 480 rowSignal)
     = [minBlobSize pixel_config] \<and>
   findMotionBlobs_pixel pixel_config 640 480 rowSignal = []"
proof (intro conjI)
  show "pixelBlobs cfg w h motionPixels
     = filter (\<lambda>b. minBlobSize cfg < length (pixels b))
         (pixelBlobs (cfg\<lparr>minBlobSize := 0\<rparr>) w h motionPixels)"
    by (rule pixelBlobs_filter)
  show "cellBlobs cfg diffImage
     = filter (\<lambda>b. minBlobSize cfg \<le> blob_size b) (cellBlobs (cfg\<lparr>minBlobSize := 0\<rparr>) diffImage)"
    by (rule cellBlobs_filter)
  show "length rowSignal = 640 * 480" by (simp add: rowSignal_def)
  have "map (\<lambda>b. length (pixels b)) (pixelBlobs (pixel_config\<lparr>minBlobSize := 0\<rparr>) 640 480 rowSignal)
     = [200]"
    unfolding rowSignal_def by (rule row_component_size) simp_all
  then show "map (\<lambda>b. length (pixels b)) (pixelBlobs (pixel_config\<lparr>minBlobSize := 0\<rparr>) 640 480 rowSignal)
     = [minBlobSize pixel_config]"
    by (simp add: pixel_config_def)
  show "findMotionBlobs_pixel pixel_config 640 480 rowSignal = []"
    unfolding rowSignal_def by (rule row_of_minimum_size_dropped) (simp_all add: pixel_config_def)
qed

text \<open>
  C4: in the cell grid, a cell is marked as motion iff some pixel inside it has a difference
  value above the threshold. As stated, the claim takes the cell's intensity to be the mean of
  the contributing values; the code divides their sum by \<open>GRID_SIZE * GRID_SIZE\<close>, whatever
  their number. A single pixel of value 100 in a cell gives intensity 1, not 100.
\<close>

theorem cell_mean_counterexample:
  "contributing cell_config onePixel 0 0 = [100] \<and>
   cell_avgDiff (motionGrid cell_config onePixel ! 0 ! 0) = 1 \<and>
   cell_avgDiff (motionGrid cell_config onePixel ! 0 ! 0)
     \<noteq> sum_list (contributing cell_config onePixel 0 0)
         / real (length (contributing cell_config onePixel 0 0))"
  by code_simp

text \<open>
  C4, amended: a cell is marked as motion iff some pixel inside it has a difference value
  above the threshold, and its intensity is the sum of the above-threshold values inside it
  divided by the square of the grid size.
\<close>

theorem cell_motion_and_intensity:
  assumes "gx < gridCells (img_width img) (gridSize cfg)"
    and "gy < gridCells (img_height img) (gridSize cfg)"
  shows "(motion (motionGrid cfg img ! gy ! gx) \<longleftrightarrow>
            (\<exists>x y a. x < img_width img \<and> y < img_height img \<and>
               x div gridSize cfg = gx \<and> y div gridSize cfg = gy \<and>
               byteAt (img_pixels img) ((y * img_width img + x) * 4 + 3) = Some a \<and>
               real_of_int a > motionThreshold cfg)) \<and>
         cell_avgDiff (motionGrid cfg img ! gy ! gx)
           = sum_list (contributing cfg img gx gy) / real (gridSize cfg * gridSize cfg)"
  using motionGrid_cell [OF assms] contributing_nonempty [of cfg img gx gy] by simp


theorem cell_motion_and_intensity_witness:
  "0 < gridCells (img_width onePixel) (gridSize cell_config) \<and>
   0 < gridCells (img_height onePixel) (gridSize cell_config) \<and>
   motion (motionGrid cell_config onePixel ! 0 ! 0) \<and>
   cell_avgDiff (motionGrid cell_config onePixel ! 0 ! 0)
     = sum_list (contributing cell_config onePixel 0 0)
         / real (gridSize cell_config * gridSize cell_config)"
proof -
  have h1: "0 < gridCells (img_width onePixel) (gridSize cell_config)" by code_simp
  have h2: "0 < gridCells (img_height onePixel) (gridSize cell_config)" by code_simp
  have m: "motion (motionGrid cell_config onePixel ! 0 ! 0)" by code_simp
  from cell_motion_and_intensity [OF h1 h2] h1 h2 m show ?thesis by blast
qed

text \<open>
  C6: for two frames with the same pixel data, the motion signal is zero everywhere and the
  detector returns no blob, in both variants: \<open>motionPixels\<close> holds only zeros after the
  differencing loop of the pixel variant, and every alpha value of the difference image of
  the cell variant is zero. The thresholds of both sketches are positive; the cell grid needs
  a positive grid size.
\<close>

theorem identical_frames_no_blobs:
  assumes "0 \<le> motionThreshold cfg" and "0 < gridSize cfg"
  shows "(\<forall>v \<in> set (motionSignal cfg w h f f motionPixels). v = 0) \<and>
     findMotionBlobs_pixel cfg w h (motionSignal cfg w h f f motionPixels) = [] \<and>
     (\<forall>k. 4 * k + 3 < length (img_pixels (createDifferenceImage f f)) \<longrightarrow>
          img_pixels (createDifferenceImage f f) ! (4 * k + 3) = 0) \<and>
     findMotionBlobs_cell cfg (createDifferenceImage f f) = Inr []"
proof (intro conjI)
  show z: "\<forall>v \<in> set (motionSignal cfg w h f f motionPixels). v = 0"
    by (rule motionSignal_zero)
  show "findMotionBlobs_pixel cfg w h (motionSignal cfg w h f f motionPixels) = []"
    using z by (rule findMotionBlobs_pixel_zero)
  show "\<forall>k. 4 * k + 3 < length (img_pixels (createDifferenceImage f f)) \<longrightarrow>
          img_pixels (createDifferenceImage f f) ! (4 * k + 3) = 0"
    using createDifferenceImage_alphaZero [of f] unfolding alphaZero_def .
  show "findMotionBlobs_cell cfg (createDifferenceImage f f) = Inr []"
    using createDifferenceImage_alphaZero assms by (rule findMotionBlobs_cell_quiet)
qed

theorem identical_frames_no_blobs_witness:
  "0 \<le> motionThreshold cell_config \<and> 0 < gridSize cell_config \<and>
   findMotionBlobs_pixel cell_config 1 1 (motionSignal cell_config 1 1 onePixel onePixel smallSignal) = [] \<and>
   findMotionBlobs_cell cell_config (createDifferenceImage onePixel onePixel) = Inr []"
proof -
  have h1: "0 \<le> motionThreshold cell_config" by (simp add: cell_config_def)
  have h2: "0 < gridSize cell_config" by (simp add: cell_config_def)
  from identical_frames_no_blobs [OF h1 h2, of 1 1 onePixel smallSignal] h1 h2
  show ?thesis by blast
qed

text \<open>
  C7: the list that the detector returns has at most \<open>maxBlobs\<close> entries, is sorted by
  non-increasing size, and its blobs of any one size appear in the order in which the scan
  pushed them (the returned blobs of that size are an initial part of the scanned ones of that
  size). \<open>Array.prototype.sort\<close> is stable. The cell variant needs a positive grid size to
  return.
\<close>

theorem blobs_sorted_truncated:
  assumes "0 < gridSize cfg"
  shows "length (findMotionBlobs_pixel cfg w h motionPixels) \<le> maxBlobs cfg \<and>
     sorted_wrt (\<lambda>a b. length (pixels a) \<ge> length (pixels b))
       (findMotionBlobs_pixel cfg w h motionPixels) \<and>
     (\<forall>k. prefix (filter (\<lambda>b. length (pixels b) = k) (findMotionBlobs_pixel cfg w h motionPixels))
                 (filter (\<lambda>b. length (pixels b) = k) (pixelBlobs cfg w h motionPixels))) \<and>
     (\<exists>r. findMotionBlobs_cell cfg diffImage = Inr r \<and>
        length r \<le> maxBlobs cfg \<and>
        sorted_wrt (\<lambda>a b. blob_size a \<ge> blob_size b) r \<and>
        (\<forall>k. prefix (filter (\<lambda>b. blob_size b = k) r)
                    (filter (\<lambda>b. blob_size b = k) (cellBlobs cfg diffImage))))"
  using assms top_blobs [of "maxBlobs cfg" "\<lambda>b. length (pixels b)" "pixelBlobs cfg w h motionPixels"]
    top_blobs [of "maxBlobs cfg" blob_size "cellBlobs cfg diffImage"]
  by (simp add: findMotionBlobs_pixel_def findMotionBlobs_cell_def)

theorem blobs_sorted_truncated_witness:
  "0 < gridSize cell_config \<and>
   length (findMotionBlobs_pixel cell_config 3 2 smallSignal) \<le> maxBlobs cell_config \<and>
   sorted_wrt (\<lambda>a b. length (pixels a) \<ge> length (pixels b))
     (findMotionBlobs_pixel cell_config 3 2 smallSignal) \<and>
   (\<exists>r. findMotionBlobs_cell cell_config onePixel = Inr r \<and> length r \<le> maxBlobs cell_config \<and>
      sorted_wrt (\<lambda>a b. blob_size a \<ge> blob_size b) r)"
proof -
  have h: "0 < gridSize cell_config" by (simp add: cell_config_def)
  from blobs_sorted_truncated [OF h, of 3 2 smallSignal onePixel] h
  show ?thesis by blast
qed

end
